theory Spec2Isabelle
  imports Complex_Main "HOL-Library.Multiset"
begin

section \<open>Values and errors\<close>

text \<open>
  The statistical core of the repository is \<^verbatim>\<open>src/dbpa/model/core.py\<close>. Its numbers are
  numpy float64 values. They are modelled as reals, extended with the IEEE special values
  where the code can produce them (a division by zero yields an infinity or a NaN and a
  warning, not an exception). The similarity engine is modelled with the rounding of
  binary64 arithmetic, one rounding per operation. The divergence estimator is modelled
  in exact arithmetic. The exponent range (overflow, subnormal numbers) and signed zeros
  are not modelled.

  Embedding groups are two-dimensional arrays, modelled as lists of rows; a list with rows
  of different lengths stands for a nested Python list that is not rectangular.
\<close>

datatype error = ValueError | IndexError | ZeroDivisionError | ImportError

type_synonym vec = "real list"
type_synonym matrix = "real list list"

datatype npfloat = Fin real | PInf | NInf | NaN

fun isnan :: "npfloat \<Rightarrow> bool" where
  "isnan NaN = True"
| "isnan _ = False"

fun fadd :: "npfloat \<Rightarrow> npfloat \<Rightarrow> npfloat" where
  "fadd NaN _ = NaN"
| "fadd _ NaN = NaN"
| "fadd (Fin a) (Fin b) = Fin (a + b)"
| "fadd PInf NInf = NaN"
| "fadd NInf PInf = NaN"
| "fadd PInf _ = PInf"
| "fadd _ PInf = PInf"
| "fadd NInf _ = NInf"
| "fadd _ NInf = NInf"

fun fsub :: "npfloat \<Rightarrow> npfloat \<Rightarrow> npfloat" where
  "fsub NaN _ = NaN"
| "fsub _ NaN = NaN"
| "fsub (Fin a) (Fin b) = Fin (a - b)"
| "fsub PInf PInf = NaN"
| "fsub NInf NInf = NaN"
| "fsub PInf _ = PInf"
| "fsub _ PInf = NInf"
| "fsub NInf _ = NInf"
| "fsub _ NInf = PInf"

fun fmul :: "npfloat \<Rightarrow> npfloat \<Rightarrow> npfloat" where
  "fmul NaN _ = NaN"
| "fmul _ NaN = NaN"
| "fmul (Fin a) (Fin b) = Fin (a * b)"
| "fmul (Fin a) PInf = (if a = 0 then NaN else if 0 < a then PInf else NInf)"
| "fmul (Fin a) NInf = (if a = 0 then NaN else if 0 < a then NInf else PInf)"
| "fmul PInf (Fin b) = (if b = 0 then NaN else if 0 < b then PInf else NInf)"
| "fmul NInf (Fin b) = (if b = 0 then NaN else if 0 < b then NInf else PInf)"
| "fmul PInf PInf = PInf"
| "fmul NInf NInf = PInf"
| "fmul PInf NInf = NInf"
| "fmul NInf PInf = NInf"

fun fdiv :: "npfloat \<Rightarrow> npfloat \<Rightarrow> npfloat" where
  "fdiv NaN _ = NaN"
| "fdiv _ NaN = NaN"
| "fdiv (Fin a) (Fin b) =
     (if b \<noteq> 0 then Fin (a / b) else if a = 0 then NaN else if 0 < a then PInf else NInf)"
| "fdiv (Fin a) PInf = Fin 0"
| "fdiv (Fin a) NInf = Fin 0"
| "fdiv PInf (Fin b) = (if 0 \<le> b then PInf else NInf)"
| "fdiv NInf (Fin b) = (if 0 \<le> b then NInf else PInf)"
| "fdiv PInf _ = NaN"
| "fdiv NInf _ = NaN"

fun flog :: "npfloat \<Rightarrow> npfloat" where
  "flog NaN = NaN"
| "flog (Fin a) = (if 0 < a then Fin (ln a) else if a = 0 then NInf else NaN)"
| "flog PInf = PInf"
| "flog NInf = NaN"

fun fsqrt :: "npfloat \<Rightarrow> npfloat" where
  "fsqrt NaN = NaN"
| "fsqrt (Fin a) = (if 0 \<le> a then Fin (sqrt a) else NaN)"
| "fsqrt PInf = PInf"
| "fsqrt NInf = NaN"

text \<open>Comparisons: every comparison with a NaN is false.\<close>

fun fge :: "npfloat \<Rightarrow> npfloat \<Rightarrow> bool" where
  "fge NaN _ = False"
| "fge _ NaN = False"
| "fge (Fin a) (Fin b) = (b \<le> a)"
| "fge PInf _ = True"
| "fge _ NInf = True"
| "fge _ PInf = False"
| "fge NInf _ = False"

fun fgt :: "npfloat \<Rightarrow> npfloat \<Rightarrow> bool" where
  "fgt NaN _ = False"
| "fgt _ NaN = False"
| "fgt (Fin a) (Fin b) = (b < a)"
| "fgt PInf PInf = False"
| "fgt PInf _ = True"
| "fgt NInf _ = False"
| "fgt _ NInf = True"
| "fgt _ PInf = False"

text \<open>\<^verbatim>\<open>numpy.sum\<close> over a one-dimensional float array.\<close>

definition np_sum :: "npfloat list \<Rightarrow> npfloat" where
  "np_sum xs = foldr fadd xs (Fin 0)"

text \<open>
  Rounding to the nearest binary64 number, ties to the even significand: a non-zero \<open>x\<close>
  with \<open>2\<^sup>e \<le> |x| < 2\<^sup>e\<^sup>+\<^sup>1\<close> is rounded to a multiple of \<open>2\<^sup>e\<^sup>-\<^sup>5\<^sup>2\<close>.
\<close>

definition round_half_even :: "real \<Rightarrow> int" where
  "round_half_even y =
     (let n = \<lfloor>y\<rfloor>; r = y - of_int n
      in if r < 1 / 2 then n else if 1 / 2 < r then n + 1 else if even n then n else n + 1)"

definition fl :: "real \<Rightarrow> real" where
  "fl x =
     (if x = 0 then 0
      else let e = \<lfloor>log 2 \<bar>x\<bar>\<rfloor>
           in of_int (round_half_even (x * 2 powr of_int (52 - e))) * 2 powr of_int (e - 52))"

section \<open>The similarity engine\<close>

subsection \<open>\<^verbatim>\<open>sklearn.metrics.pairwise.cosine_similarity\<close>\<close>

text \<open>
  The library validates each argument (\<^verbatim>\<open>check_array\<close>: a rectangular two-dimensional array
  with at least one sample and at least one feature) and then the pair
  (\<^verbatim>\<open>check_pairwise_arrays\<close>: the same number of features); every failure is a
  \<^verbatim>\<open>ValueError\<close>. It normalises every row by its Euclidean norm (\<^verbatim>\<open>row_norms\<close>: the square
  root of the sum of the squares), norms below ten machine epsilons being replaced by 1
  (\<^verbatim>\<open>_handle_zeros_in_scale\<close>), and returns the matrix product of the normalised arrays.
  Sums of products are accumulated from left to right, every product, sum, square root
  and quotient rounded once.
\<close>

definition check_array :: "matrix \<Rightarrow> error + matrix" where
  "check_array X =
     (if X = [] then Inl ValueError
      else if \<exists>r \<in> set X. length r \<noteq> length (hd X) then Inl ValueError
      else if length (hd X) = 0 then Inl ValueError
      else Inr X)"

definition check_pairwise_arrays :: "matrix \<Rightarrow> matrix option \<Rightarrow> error + (matrix \<times> matrix)" where
  "check_pairwise_arrays X Yo =
     (case Yo of
        None \<Rightarrow> (case check_array X of Inl e \<Rightarrow> Inl e | Inr X' \<Rightarrow> Inr (X', X'))
      | Some Y \<Rightarrow>
          (case check_array X of
             Inl e \<Rightarrow> Inl e
           | Inr X' \<Rightarrow>
               (case check_array Y of
                  Inl e \<Rightarrow> Inl e
                | Inr Y' \<Rightarrow>
                    if length (hd X') \<noteq> length (hd Y') then Inl ValueError
                    else Inr (X', Y'))))"

definition dot :: "vec \<Rightarrow> vec \<Rightarrow> real" where
  "dot x y = foldl (\<lambda>s p. fl (s + p)) 0 (map2 (\<lambda>a b. fl (a * b)) x y)"

definition row_norm :: "vec \<Rightarrow> real" where
  "row_norm x = fl (sqrt (dot x x))"

definition eps :: real where
  "eps = 1 / 2 ^ 52"

definition handle_zeros_in_scale :: "real \<Rightarrow> real" where
  "handle_zeros_in_scale s = (if s < 10 * eps then 1 else s)"

definition normalize :: "matrix \<Rightarrow> matrix" where
  "normalize X = map (\<lambda>x. map (\<lambda>v. fl (v / handle_zeros_in_scale (row_norm x))) x) X"

definition cosine_similarity :: "matrix \<Rightarrow> matrix option \<Rightarrow> error + matrix" where
  "cosine_similarity X Yo =
     (case check_pairwise_arrays X Yo of
        Inl e \<Rightarrow> Inl e
      | Inr (X', Y') \<Rightarrow>
          Inr (map (\<lambda>x. map (\<lambda>y. dot x y) (normalize Y')) (normalize X')))"

subsection \<open>\<^verbatim>\<open>calculate_cosine_similarities\<close>\<close>

text \<open>
  \<^verbatim>\<open>numpy.triu_indices_from(arr, k)\<close>: the index pairs \<open>(i, j)\<close> with \<open>i + k \<le> j\<close> of an
  array with \<open>n\<close> rows and \<open>m\<close> columns, in row-major order.
\<close>

definition triu_indices :: "nat \<Rightarrow> nat \<Rightarrow> nat \<Rightarrow> (nat \<times> nat) list" where
  "triu_indices n k m = concat (map (\<lambda>i. map (\<lambda>j. (i, j)) [i + k..<m]) [0..<n])"

definition triu_indices_from :: "matrix \<Rightarrow> nat \<Rightarrow> (nat \<times> nat) list" where
  "triu_indices_from S k = triu_indices (length S) k (length (hd S))"

definition calculate_cosine_similarities :: "matrix \<Rightarrow> matrix option \<Rightarrow> error + real list" where
  "calculate_cosine_similarities embeddings1 embeddings2 =
     (case embeddings2 of
        None \<Rightarrow>
          (case cosine_similarity embeddings1 None of
             Inl e \<Rightarrow> Inl e
           | Inr similarities \<Rightarrow>
               Inr (map (\<lambda>(i, j). similarities ! i ! j) (triu_indices_from similarities 1)))
      | Some e2 \<Rightarrow>
          (case cosine_similarity embeddings1 (Some e2) of
             Inl e \<Rightarrow> Inl e
           | Inr similarities \<Rightarrow> Inr (concat similarities)))"

section \<open>The divergence estimator\<close>

definition bind_err :: "error + 'a \<Rightarrow> ('a \<Rightarrow> error + 'b) \<Rightarrow> error + 'b" where
  "bind_err m f = (case m of Inl e \<Rightarrow> Inl e | Inr x \<Rightarrow> f x)"

text \<open>\<^verbatim>\<open>ndarray.min()\<close> and \<^verbatim>\<open>ndarray.max()\<close> raise \<^verbatim>\<open>ValueError\<close> on an empty array.\<close>

definition np_min :: "real list \<Rightarrow> error + real" where
  "np_min xs = (case xs of [] \<Rightarrow> Inl ValueError | x # r \<Rightarrow> Inr (fold min r x))"

definition np_max :: "real list \<Rightarrow> error + real" where
  "np_max xs = (case xs of [] \<Rightarrow> Inl ValueError | x # r \<Rightarrow> Inr (fold max r x))"

text \<open>
  \<^verbatim>\<open>numpy.linspace(start, stop, num)\<close> with the end point included: \<open>num\<close> samples
  \<open>start + i * step\<close>, the last one set to \<open>stop\<close>; a negative \<open>num\<close> is a
  \<^verbatim>\<open>ValueError\<close>.
\<close>

definition linspace :: "real \<Rightarrow> real \<Rightarrow> int \<Rightarrow> error + real list" where
  "linspace start stop num =
     (if num < 0 then Inl ValueError
      else
        let n = nat num;
            delta = stop - start;
            y = map (\<lambda>i. (if 1 < n then real i * (delta / real (n - 1)) else real i * delta) + start)
                  [0..<n]
        in Inr (if 1 < n then butlast y @ [stop] else y))"

text \<open>
  \<^verbatim>\<open>numpy.histogram(a, bins=bin_edges, density=True)\<close> with an array of bin edges. The
  edges must not decrease. The counts are differences of a cumulative count taken with
  \<^verbatim>\<open>searchsorted\<close>: strictly below each edge but the last, at most the last edge. The
  density is \<^verbatim>\<open>n / db / n.sum()\<close> in float arithmetic.
\<close>

definition np_diff_int :: "int list \<Rightarrow> int list" where
  "np_diff_int xs = map2 (\<lambda>a b. b - a) xs (tl xs)"

definition np_diff :: "real list \<Rightarrow> real list" where
  "np_diff xs = map2 (\<lambda>a b. b - a) xs (tl xs)"

definition search_sorted_inclusive :: "real list \<Rightarrow> real list \<Rightarrow> int list" where
  "search_sorted_inclusive a v =
     map (\<lambda>e. int (length (filter (\<lambda>x. x < e) a))) (butlast v)
     @ map (\<lambda>e. int (length (filter (\<lambda>x. x \<le> e) a))) (drop (length v - 1) v)"

definition histogram :: "real list \<Rightarrow> real list \<Rightarrow> error + npfloat list" where
  "histogram a bin_edges =
     (if \<exists>(x, y) \<in> set (zip bin_edges (tl bin_edges)). y < x then Inl ValueError
      else
        let n = np_diff_int (search_sorted_inclusive a bin_edges);
            db = np_diff bin_edges
        in Inr (map2 (\<lambda>c w. fdiv (fdiv (Fin (real_of_int c)) (Fin w)) (Fin (real_of_int (sum_list n))))
                  n db))"

text \<open>\<^verbatim>\<open>scipy.special.rel_entr\<close> and \<^verbatim>\<open>scipy.spatial.distance.jensenshannon\<close>.\<close>

definition rel_entr :: "npfloat \<Rightarrow> npfloat \<Rightarrow> npfloat" where
  "rel_entr x y =
     (if isnan x \<or> isnan y then NaN
      else if fgt x (Fin 0) \<and> fgt y (Fin 0) then fmul x (flog (fdiv x y))
      else if x = Fin 0 \<and> fge y (Fin 0) then Fin 0
      else PInf)"

definition jensenshannon :: "npfloat list \<Rightarrow> npfloat list \<Rightarrow> npfloat" where
  "jensenshannon p0 q0 =
     (let p = map (\<lambda>x. fdiv x (np_sum p0)) p0;
          q = map (\<lambda>x. fdiv x (np_sum q0)) q0;
          m = map2 (\<lambda>a b. fdiv (fadd a b) (Fin 2)) p q;
          left = map2 rel_entr p m;
          right = map2 rel_entr q m;
          js = fadd (np_sum left) (np_sum right)
      in fsqrt (fdiv js (Fin 2)))"

text \<open>The inner helper \<^verbatim>\<open>_calculate_jsd\<close>, which closes over \<^verbatim>\<open>bins\<close>.\<close>

definition calculate_jsd :: "int \<Rightarrow> real list \<Rightarrow> real list \<Rightarrow> error + npfloat" where
  "calculate_jsd bins scores1 scores2 =
     bind_err (np_min scores1) (\<lambda>min1.
     bind_err (np_min scores2) (\<lambda>min2.
     bind_err (np_max scores1) (\<lambda>max1.
     bind_err (np_max scores2) (\<lambda>max2.
     bind_err (linspace (min min1 min2) (max max1 max2) (bins + 1)) (\<lambda>bin_edges.
     bind_err (histogram scores1 bin_edges) (\<lambda>hist1.
     bind_err (histogram scores2 bin_edges) (\<lambda>hist2.
     Inr (jensenshannon hist1 hist2))))))))"

section \<open>The permutation tester\<close>

text \<open>
  \<^verbatim>\<open>numpy.vstack\<close> of two arrays (the column counts must agree), and indexing an array
  with an array of row indices, which copies the selected rows and raises
  \<^verbatim>\<open>IndexError\<close> on an index out of bounds.
\<close>

definition vstack :: "matrix \<Rightarrow> matrix \<Rightarrow> error + matrix" where
  "vstack A B =
     (if \<exists>r \<in> set (A @ B). length r \<noteq> length (hd (A @ B)) then Inl ValueError
      else Inr (A @ B))"

definition fancy_index :: "matrix \<Rightarrow> nat list \<Rightarrow> error + matrix" where
  "fancy_index M idx =
     (if \<exists>i \<in> set idx. length M \<le> i then Inl IndexError else Inr (map (\<lambda>i. M ! i) idx))"

text \<open>
  The global random source of numpy is an explicit state \<open>g\<close>; \<open>draw g n\<close> stands for
  \<^verbatim>\<open>numpy.random.permutation(n)\<close> and returns the drawn index array with the next state.
  The loop \<^verbatim>\<open>for _ in range(num_permutations)\<close> threads the state and the counter.
\<close>

fun perm_loop ::
  "('g \<Rightarrow> nat \<Rightarrow> nat list \<times> 'g) \<Rightarrow> int \<Rightarrow> matrix \<Rightarrow> nat \<Rightarrow> npfloat \<Rightarrow> nat \<Rightarrow> 'g \<Rightarrow> int
     \<Rightarrow> error + (int \<times> 'g)" where
  "perm_loop draw bins combined_embeddings k observed_jsd 0 g cnt = Inr (cnt, g)"
| "perm_loop draw bins combined_embeddings k observed_jsd (Suc n) g cnt =
     (case draw g (length combined_embeddings) of (permuted_indices, g') \<Rightarrow>
        bind_err (fancy_index combined_embeddings (take k permuted_indices)) (\<lambda>perm_group1.
        bind_err (fancy_index combined_embeddings (drop k permuted_indices)) (\<lambda>perm_group2.
        bind_err (calculate_cosine_similarities perm_group1 None) (\<lambda>p0_perm.
        bind_err (calculate_cosine_similarities perm_group1 (Some perm_group2)) (\<lambda>p1_perm.
        bind_err (calculate_jsd bins p0_perm p1_perm) (\<lambda>perm_jsd.
        perm_loop draw bins combined_embeddings k observed_jsd n g'
          (if fge perm_jsd observed_jsd then cnt + 1 else cnt)))))))"

definition jensen_shannon_divergence_and_pvalue ::
  "('g \<Rightarrow> nat \<Rightarrow> nat list \<times> 'g) \<Rightarrow> 'g \<Rightarrow> matrix \<Rightarrow> matrix \<Rightarrow> int \<Rightarrow> int
     \<Rightarrow> error + ((npfloat \<times> real) \<times> 'g)" where
  "jensen_shannon_divergence_and_pvalue draw g embeddings1 embeddings2 num_permutations bins =
     bind_err (calculate_cosine_similarities embeddings1 None) (\<lambda>p0_observed.
     bind_err (calculate_cosine_similarities embeddings1 (Some embeddings2)) (\<lambda>p1_observed.
     bind_err (calculate_jsd bins p0_observed p1_observed) (\<lambda>observed_jsd.
     bind_err (vstack embeddings1 embeddings2) (\<lambda>combined_embeddings.
     bind_err (perm_loop draw bins combined_embeddings (length embeddings1) observed_jsd
                 (nat num_permutations) g 0) (\<lambda>(cnt, g').
     if num_permutations + 1 = 0 then Inl ZeroDivisionError
     else Inr ((observed_jsd,
                real_of_int (cnt + 1) / real_of_int (num_permutations + 1)), g'))))))"

text \<open>
  The same function with a ghost variable \<open>groups\<close>: the list of the pairs
  \<^verbatim>\<open>(perm_group1, perm_group2)\<close> built by the loop, one pair per iteration, in the order of
  the iterations. Nothing else differs from the function above.
\<close>

fun perm_loop_traced ::
  "('g \<Rightarrow> nat \<Rightarrow> nat list \<times> 'g) \<Rightarrow> int \<Rightarrow> matrix \<Rightarrow> nat \<Rightarrow> npfloat \<Rightarrow> nat \<Rightarrow> 'g \<Rightarrow> int
     \<Rightarrow> (matrix \<times> matrix) list \<Rightarrow> error + (int \<times> 'g \<times> (matrix \<times> matrix) list)" where
  "perm_loop_traced draw bins combined_embeddings k observed_jsd 0 g cnt groups = Inr (cnt, g, groups)"
| "perm_loop_traced draw bins combined_embeddings k observed_jsd (Suc n) g cnt groups =
     (case draw g (length combined_embeddings) of (permuted_indices, g') \<Rightarrow>
        bind_err (fancy_index combined_embeddings (take k permuted_indices)) (\<lambda>perm_group1.
        bind_err (fancy_index combined_embeddings (drop k permuted_indices)) (\<lambda>perm_group2.
        bind_err (calculate_cosine_similarities perm_group1 None) (\<lambda>p0_perm.
        bind_err (calculate_cosine_similarities perm_group1 (Some perm_group2)) (\<lambda>p1_perm.
        bind_err (calculate_jsd bins p0_perm p1_perm) (\<lambda>perm_jsd.
        perm_loop_traced draw bins combined_embeddings k observed_jsd n g'
          (if fge perm_jsd observed_jsd then cnt + 1 else cnt)
          (groups @ [(perm_group1, perm_group2)])))))))"

definition jensen_shannon_divergence_and_pvalue_traced ::
  "('g \<Rightarrow> nat \<Rightarrow> nat list \<times> 'g) \<Rightarrow> 'g \<Rightarrow> matrix \<Rightarrow> matrix \<Rightarrow> int \<Rightarrow> int
     \<Rightarrow> error + ((npfloat \<times> real) \<times> 'g \<times> (matrix \<times> matrix) list)" where
  "jensen_shannon_divergence_and_pvalue_traced draw g embeddings1 embeddings2 num_permutations bins =
     bind_err (calculate_cosine_similarities embeddings1 None) (\<lambda>p0_observed.
     bind_err (calculate_cosine_similarities embeddings1 (Some embeddings2)) (\<lambda>p1_observed.
     bind_err (calculate_jsd bins p0_observed p1_observed) (\<lambda>observed_jsd.
     bind_err (vstack embeddings1 embeddings2) (\<lambda>combined_embeddings.
     bind_err (perm_loop_traced draw bins combined_embeddings (length embeddings1) observed_jsd
                 (nat num_permutations) g 0 []) (\<lambda>(cnt, g', groups).
     if num_permutations + 1 = 0 then Inl ZeroDivisionError
     else Inr ((observed_jsd,
                real_of_int (cnt + 1) / real_of_int (num_permutations + 1)), g', groups))))))"

section \<open>The permutation tester over a store\<close>

text \<open>
  The same function once more, with its arrays in a store: a list of arrays, the address
  of an array being its position. The two embedding groups are passed as addresses, as
  Python passes references. \<^verbatim>\<open>numpy.vstack\<close> and indexing with an index array allocate the
  array they return. The similarity engine and the divergence estimator read their
  arguments: \<^verbatim>\<open>cosine_similarity\<close> normalises a copy, and the minimum, the maximum, the
  histogram and the distance return new values. The function itself contains no element
  assignment and no in-place operation, so no step of the model writes to an address that
  is already allocated.
\<close>

type_synonym addr = nat
type_synonym heap = "matrix list"

definition alloc :: "heap \<Rightarrow> matrix \<Rightarrow> addr \<times> heap" where
  "alloc h M = (length h, h @ [M])"

definition vstack_h :: "heap \<Rightarrow> addr \<Rightarrow> addr \<Rightarrow> error + (addr \<times> heap)" where
  "vstack_h h a b = bind_err (vstack (h ! a) (h ! b)) (\<lambda>M. Inr (alloc h M))"

definition fancy_index_h :: "heap \<Rightarrow> addr \<Rightarrow> nat list \<Rightarrow> error + (addr \<times> heap)" where
  "fancy_index_h h a idx = bind_err (fancy_index (h ! a) idx) (\<lambda>M. Inr (alloc h M))"

fun perm_loop_h ::
  "('g \<Rightarrow> nat \<Rightarrow> nat list \<times> 'g) \<Rightarrow> int \<Rightarrow> heap \<Rightarrow> addr \<Rightarrow> nat \<Rightarrow> npfloat \<Rightarrow> nat \<Rightarrow> 'g \<Rightarrow> int
     \<Rightarrow> error + (int \<times> 'g \<times> heap)" where
  "perm_loop_h draw bins h combined_embeddings k observed_jsd 0 g cnt = Inr (cnt, g, h)"
| "perm_loop_h draw bins h combined_embeddings k observed_jsd (Suc n) g cnt =
     (case draw g (length (h ! combined_embeddings)) of (permuted_indices, g') \<Rightarrow>
        bind_err (fancy_index_h h combined_embeddings (take k permuted_indices)) (\<lambda>(perm_group1, h1).
        bind_err (fancy_index_h h1 combined_embeddings (drop k permuted_indices)) (\<lambda>(perm_group2, h2).
        bind_err (calculate_cosine_similarities (h2 ! perm_group1) None) (\<lambda>p0_perm.
        bind_err (calculate_cosine_similarities (h2 ! perm_group1) (Some (h2 ! perm_group2))) (\<lambda>p1_perm.
        bind_err (calculate_jsd bins p0_perm p1_perm) (\<lambda>perm_jsd.
        perm_loop_h draw bins h2 combined_embeddings k observed_jsd n g'
          (if fge perm_jsd observed_jsd then cnt + 1 else cnt)))))))"

definition jensen_shannon_divergence_and_pvalue_h ::
  "('g \<Rightarrow> nat \<Rightarrow> nat list \<times> 'g) \<Rightarrow> 'g \<Rightarrow> heap \<Rightarrow> addr \<Rightarrow> addr \<Rightarrow> int \<Rightarrow> int
     \<Rightarrow> error + ((npfloat \<times> real) \<times> 'g \<times> heap)" where
  "jensen_shannon_divergence_and_pvalue_h draw g h embeddings1 embeddings2 num_permutations bins =
     bind_err (calculate_cosine_similarities (h ! embeddings1) None) (\<lambda>p0_observed.
     bind_err (calculate_cosine_similarities (h ! embeddings1) (Some (h ! embeddings2))) (\<lambda>p1_observed.
     bind_err (calculate_jsd bins p0_observed p1_observed) (\<lambda>observed_jsd.
     bind_err (vstack_h h embeddings1 embeddings2) (\<lambda>(combined_embeddings, h1).
     bind_err (perm_loop_h draw bins h1 combined_embeddings (length (h1 ! embeddings1)) observed_jsd
                 (nat num_permutations) g 0) (\<lambda>(cnt, g', h').
     if num_permutations + 1 = 0 then Inl ZeroDivisionError
     else Inr ((observed_jsd,
                real_of_int (cnt + 1) / real_of_int (num_permutations + 1)), g', h'))))))"

section \<open>The command-line interface\<close>

text \<open>
  \<^verbatim>\<open>src/dbpa/interface.py\<close> begins with
  \<^verbatim>\<open>from dbpa.model.core import quantify_perturbations\<close>, executed before anything else of
  the interface. The names that \<^verbatim>\<open>core.py\<close> binds at module level when it is imported are
  its three imports and its two functions (the block under
  \<^verbatim>\<open>if __name__ == '__main__'\<close> does not run on import). \<^verbatim>\<open>from m import name\<close> raises
  \<^verbatim>\<open>ImportError\<close> when the module does not bind the name.
\<close>

definition core_module_names :: "string list" where
  "core_module_names =
     [''np'', ''cosine_similarity'', ''jensenshannon'',
      ''calculate_cosine_similarities'', ''jensen_shannon_divergence_and_pvalue'']"

definition import_from :: "string list \<Rightarrow> string \<Rightarrow> error + string" where
  "import_from names name = (if name \<in> set names then Inr name else Inl ImportError)"

definition interface_import :: "error + string" where
  "interface_import = import_from core_module_names ''quantify_perturbations''"

section \<open>Specification-side notions\<close>

text \<open>
  A well-formed embedding group: a rectangular array with at least one row and at least
  one column.
\<close>

definition valid_group :: "matrix \<Rightarrow> bool" where
  "valid_group X \<longleftrightarrow>
     X \<noteq> [] \<and> list_all (\<lambda>r. length r = length (hd X)) X \<and> 0 < length (hd X)"

text \<open>
  The cosine similarity of two vectors as the library computes it: each vector is divided
  by its norm, a norm below ten machine epsilons counting as 1, and the similarity is the
  dot product of the two quotients.
\<close>

definition normalize_row :: "vec \<Rightarrow> vec" where
  "normalize_row x = map (\<lambda>v. fl (v / handle_zeros_in_scale (row_norm x))) x"

definition cos_sim :: "vec \<Rightarrow> vec \<Rightarrow> real" where
  "cos_sim x y = dot (normalize_row x) (normalize_row y)"

text \<open>
  The bin edges and the density histogram of the divergence estimator in closed form: the
  joint range of two non-empty collections, the \<open>n\<close> equally spaced edges over it, and the
  density of a collection over given edges.
\<close>

definition joint_lo :: "real list \<Rightarrow> real list \<Rightarrow> real" where
  "joint_lo s1 s2 = min (fold min (tl s1) (hd s1)) (fold min (tl s2) (hd s2))"

definition joint_hi :: "real list \<Rightarrow> real list \<Rightarrow> real" where
  "joint_hi s1 s2 = max (fold max (tl s1) (hd s1)) (fold max (tl s2) (hd s2))"

definition edges :: "real \<Rightarrow> real \<Rightarrow> nat \<Rightarrow> real list" where
  "edges lo hi n =
     (if n = 0 then [] else if n = 1 then [lo]
      else map (\<lambda>i. real i * ((hi - lo) / real (n - 1)) + lo) [0..<n])"

definition density :: "real list \<Rightarrow> real list \<Rightarrow> npfloat list" where
  "density a es =
     map2 (\<lambda>c w. fdiv (fdiv (Fin (real_of_int c)) (Fin w))
                 (Fin (real_of_int (sum_list (np_diff_int (search_sorted_inclusive a es))))))
       (np_diff_int (search_sorted_inclusive a es)) (np_diff es)"

fun finite_float :: "npfloat \<Rightarrow> bool" where
  "finite_float (Fin _) = True"
| "finite_float _ = False"

text \<open>
  The two similarity collections in closed form: the similarities of the pairs \<open>(i, j)\<close>,
  \<open>i < j\<close>, of one group, row by row, and the similarities of the pairs of two groups, row
  by row.
\<close>

definition intra_similarities :: "matrix \<Rightarrow> real list" where
  "intra_similarities A =
     concat (map (\<lambda>i. map (\<lambda>j. cos_sim (A ! i) (A ! j)) [i + 1..<length A]) [0..<length A])"

definition inter_similarities :: "matrix \<Rightarrow> matrix \<Rightarrow> real list" where
  "inter_similarities A B = concat (map (\<lambda>x. map (\<lambda>y. cos_sim x y) B) A)"

text \<open>
  The permutation test in the words of its description. The test statistic of two groups
  is the divergence between the intra-group similarities of the first and the similarities
  between the first and the second. A permuted statistic rearranges the pooled vectors by
  an index permutation, takes the first \<open>k\<close> as one group and the rest as the other, and
  computes the same statistic. The random source yields a sequence of draws; the count is
  the number of draws whose statistic is at least the observed one.
\<close>

definition test_statistic :: "int \<Rightarrow> matrix \<Rightarrow> matrix \<Rightarrow> error + npfloat" where
  "test_statistic bins A B =
     bind_err (calculate_cosine_similarities A None) (\<lambda>p0.
     bind_err (calculate_cosine_similarities A (Some B)) (\<lambda>p1.
     calculate_jsd bins p0 p1))"

definition permuted_statistic :: "int \<Rightarrow> matrix \<Rightarrow> nat \<Rightarrow> nat list \<Rightarrow> error + npfloat" where
  "permuted_statistic bins Z k p =
     bind_err (fancy_index Z p) (\<lambda>Z'. test_statistic bins (take k Z') (drop k Z'))"

definition exceed_count :: "int \<Rightarrow> matrix \<Rightarrow> nat \<Rightarrow> npfloat \<Rightarrow> nat list list \<Rightarrow> nat" where
  "exceed_count bins Z k obs ps =
     length (filter (\<lambda>p. case permuted_statistic bins Z k p of Inl e \<Rightarrow> False | Inr t \<Rightarrow> fge t obs) ps)"

fun draws :: "('g \<Rightarrow> nat \<Rightarrow> nat list \<times> 'g) \<Rightarrow> 'g \<Rightarrow> nat \<Rightarrow> nat \<Rightarrow> nat list list" where
  "draws draw g m 0 = []"
| "draws draw g m (Suc n) = (case draw g m of (p, g') \<Rightarrow> p # draws draw g' m n)"

fun final_state :: "('g \<Rightarrow> nat \<Rightarrow> nat list \<times> 'g) \<Rightarrow> 'g \<Rightarrow> nat \<Rightarrow> nat \<Rightarrow> 'g" where
  "final_state draw g m 0 = g"
| "final_state draw g m (Suc n) = (case draw g m of (p, g') \<Rightarrow> final_state draw g' m n)"

text \<open>An index array that \<^verbatim>\<open>numpy.random.permutation(n)\<close> may return.\<close>

definition is_permutation :: "nat list \<Rightarrow> nat \<Rightarrow> bool" where
  "is_permutation p n \<longleftrightarrow> sort p = [0..<n]"

text \<open>
  The pooled array rearranged by an index permutation and cut after \<open>k\<close> rows.
\<close>

definition split_pool :: "matrix \<Rightarrow> nat \<Rightarrow> nat list \<Rightarrow> matrix \<times> matrix" where
  "split_pool Z k p = (take k (map (\<lambda>i. Z ! i) p), drop k (map (\<lambda>i. Z ! i) p))"

section \<open>Properties of the similarity engine\<close>

lemma check_array_eq: "check_array X = (if valid_group X then Inr X else Inl ValueError)"
proof (cases "valid_group X")
  case True
  then have c1: "X \<noteq> []" and c2: "\<not> (\<exists>r \<in> set X. length r \<noteq> length (hd X))"
    and c3: "length (hd X) \<noteq> 0"
    unfolding valid_group_def list_all_iff by blast+
  from True show ?thesis
    by (simp only: check_array_def c1 c2 c3 if_False if_True)
next
  case False
  then consider "X = []" | "\<exists>r \<in> set X. length r \<noteq> length (hd X)" | "length (hd X) = 0"
    unfolding valid_group_def list_all_iff by blast
  then have "check_array X = Inl ValueError"
  proof cases
    case 1
    then show ?thesis by (simp add: check_array_def)
  next
    case 2
    then show ?thesis by (simp only: check_array_def if_True if_cancel)
  next
    case 3
    then show ?thesis by (simp add: check_array_def)
  qed
  with False show ?thesis by (simp only: if_False)
qed

lemma check_array_valid: "valid_group X \<Longrightarrow> check_array X = Inr X"
  by (simp add: check_array_eq)

lemma check_array_invalid: "\<not> valid_group X \<Longrightarrow> check_array X = Inl ValueError"
  by (simp add: check_array_eq)

lemma normalize_rows: "normalize X = map normalize_row X"
  by (simp add: normalize_def normalize_row_def)

lemma cosine_similarity_valid:
  assumes "valid_group X"
  shows "cosine_similarity X None = Inr (map (\<lambda>x. map (\<lambda>y. cos_sim x y) X) X)"
  using assms
  by (simp add: cosine_similarity_def check_pairwise_arrays_def check_array_eq normalize_rows
      comp_def cos_sim_def)

lemma cosine_similarity_valid2:
  assumes "valid_group X" "valid_group Y" "length (hd X) = length (hd Y)"
  shows "cosine_similarity X (Some Y) = Inr (map (\<lambda>x. map (\<lambda>y. cos_sim x y) Y) X)"
  using assms
  by (simp add: cosine_similarity_def check_pairwise_arrays_def check_array_eq normalize_rows
      comp_def cos_sim_def)

lemma cosine_similarity_invalid:
  "\<not> valid_group X \<Longrightarrow> cosine_similarity X Yo = Inl ValueError"
  by (simp add: cosine_similarity_def check_pairwise_arrays_def check_array_eq
      split: option.splits)

lemma cosine_similarity_invalid2:
  "\<not> valid_group Y \<or> length (hd X) \<noteq> length (hd Y) \<Longrightarrow> cosine_similarity X (Some Y) = Inl ValueError"
  by (auto simp add: cosine_similarity_def check_pairwise_arrays_def check_array_eq)

lemma length_triu: "n \<le> m \<Longrightarrow> 2 * length (triu_indices n 1 m) + n * (n + 1) = 2 * n * m"
proof (induction n)
  case 0
  then show ?case by (simp add: triu_indices_def)
next
  case (Suc n)
  then have IH: "2 * length (triu_indices n 1 m) + n * (n + 1) = 2 * n * m" and nm: "Suc n \<le> m"
    by simp_all
  have "length (triu_indices (Suc n) 1 m) = length (triu_indices n 1 m) + (m - (n + 1))"
    by (simp add: triu_indices_def)
  then have "2 * length (triu_indices (Suc n) 1 m) + Suc n * (Suc n + 1)
      = (2 * length (triu_indices n 1 m) + n * (n + 1)) + (2 * (m - (n + 1)) + 2 * (n + 1))"
    by simp
  also have "\<dots> = 2 * n * m + (2 * (m - (n + 1)) + 2 * (n + 1))"
    by (simp only: IH)
  also have "\<dots> = 2 * n * m + 2 * m"
    using nm by simp
  finally show ?case by simp
qed

lemma length_triu_square: "length (triu_indices k 1 k) = k * (k - 1) div 2"
proof -
  have "2 * length (triu_indices k 1 k) + k * (k + 1) = 2 * k * k"
    by (rule length_triu) simp
  moreover have "k * (k - 1) + k * (k + 1) = 2 * k * k"
    by (cases k) simp_all
  ultimately have "2 * length (triu_indices k 1 k) = k * (k - 1)" by linarith
  then show ?thesis by simp
qed

lemma valid_group_row: "valid_group X \<Longrightarrow> r \<in> set X \<Longrightarrow> length r = length (hd X)"
  unfolding valid_group_def list_all_iff by blast

lemma valid_group_nonempty: "valid_group X \<Longrightarrow> X \<noteq> []"
  unfolding valid_group_def by blast

lemma map_triu:
  "map (\<lambda>(i, j). f i j) (triu_indices n k m) = concat (map (\<lambda>i. map (\<lambda>j. f i j) [i + k..<m]) [0..<n])"
  by (simp add: triu_indices_def map_concat comp_def)

lemma ccs_intra:
  assumes "valid_group A"
  shows "calculate_cosine_similarities A None =
    Inr (concat (map (\<lambda>i. map (\<lambda>j. cos_sim (A ! i) (A ! j)) [i + 1..<length A]) [0..<length A]))"
proof -
  let ?S = "map (\<lambda>x. map (\<lambda>y. cos_sim x y) A) A"
  have ne: "A \<noteq> []" using assms by (rule valid_group_nonempty)
  have hd: "length (hd ?S) = length A" using ne by (simp add: hd_map)
  have "map (\<lambda>(i, j). ?S ! i ! j) (triu_indices (length A) 1 (length A))
      = concat (map (\<lambda>i. map (\<lambda>j. ?S ! i ! j) [i + 1..<length A]) [0..<length A])"
    by (rule map_triu)
  also have "\<dots> = concat (map (\<lambda>i. map (\<lambda>j. cos_sim (A ! i) (A ! j)) [i + 1..<length A]) [0..<length A])"
    by (intro arg_cong [where f = concat] map_cong refl) simp
  finally show ?thesis
    using hd by (simp add: calculate_cosine_similarities_def cosine_similarity_valid [OF assms]
        triu_indices_from_def)
qed

lemma ccs_inter:
  assumes "valid_group A" "valid_group B" "length (hd A) = length (hd B)"
  shows "calculate_cosine_similarities A (Some B) = Inr (concat (map (\<lambda>x. map (\<lambda>y. cos_sim x y) B) A))"
  by (simp add: calculate_cosine_similarities_def cosine_similarity_valid2 [OF assms])

lemma ccs_invalid: "\<not> valid_group X \<Longrightarrow> calculate_cosine_similarities X Yo = Inl ValueError"
  by (simp add: calculate_cosine_similarities_def cosine_similarity_invalid split: option.splits)

lemma ccs_invalid2:
  "\<not> valid_group Y \<or> length (hd X) \<noteq> length (hd Y) \<Longrightarrow>
   calculate_cosine_similarities X (Some Y) = Inl ValueError"
  by (simp add: calculate_cosine_similarities_def cosine_similarity_invalid2)

lemma length_concat_const:
  "(\<And>x. x \<in> set xs \<Longrightarrow> length (f x) = n) \<Longrightarrow> length (concat (map f xs)) = length xs * n"
  by (induction xs) simp_all

lemma length_intra:
  "length (concat (map (\<lambda>i. map (\<lambda>j. f i j) [i + 1..<k]) [0..<k])) = k * (k - 1) div 2"
proof -
  have "length (concat (map (\<lambda>i. map (\<lambda>j. f i j) [i + 1..<k]) [0..<k]))
      = length (map (\<lambda>(i, j). f i j) (triu_indices k 1 k))"
    by (simp only: map_triu)
  then show ?thesis by (simp only: length_map length_triu_square)
qed


lemma round_half_even_near:
  assumes "\<bar>y - of_int m\<bar> < 1 / 2"
  shows "round_half_even y = m"
proof -
  from assms have up: "y < of_int m + 1 / 2" and dn: "of_int m - 1 / 2 < y"
    unfolding abs_less_iff by linarith+
  show ?thesis
  proof (cases "of_int m \<le> y")
    case True
    moreover have "y < of_int m + 1" using up by linarith
    ultimately have "\<lfloor>y\<rfloor> = m" by (rule floor_unique)
    with up show ?thesis by (simp add: round_half_even_def Let_def)
  next
    case False
    have lo: "of_int (m - 1) \<le> y" using dn by simp
    have hi: "y < of_int (m - 1) + 1" using False by simp
    from lo hi have f: "\<lfloor>y\<rfloor> = m - 1" by (rule floor_unique)
    have "1 / 2 < y - of_int (m - 1)" using dn by simp
    with f show ?thesis by (simp add: round_half_even_def Let_def)
  qed
qed

lemma fl_scaled:
  fixes k :: nat
  assumes "2 ^ 52 \<le> x * 2 ^ k" "x * 2 ^ k < 2 ^ 53" "\<bar>x * 2 ^ k - of_int m\<bar> < 1 / 2"
  shows "fl x = of_int m / 2 ^ k"
proof -
  have pos: "0 < x"
  proof (rule ccontr)
    assume "\<not> 0 < x"
    then have "x * 2 ^ k \<le> 0" by (simp add: mult_le_0_iff)
    with assms(1) show False by (smt (verit) zero_less_power)
  qed
  have l: "log 2 (x * 2 ^ k) = log 2 x + real k"
    using pos by (simp add: log_mult log_nat_power)
  have "52 \<le> log 2 (x * 2 ^ k)"
    using assms(1) pos by (subst le_log_iff) (simp_all add: powr_numeral)
  moreover have "log 2 (x * 2 ^ k) < 53"
    using assms(2) pos by (subst log_less_iff) (simp_all add: powr_numeral)
  ultimately have "\<lfloor>log 2 x\<rfloor> = 52 - int k"
    unfolding l by (intro floor_unique) simp_all
  then have e: "\<lfloor>log 2 \<bar>x\<bar>\<rfloor> = 52 - int k" using pos by simp
  have p1: "2 powr of_int (52 - (52 - int k)) = (2 :: real) ^ k"
    by (simp add: powr_realpow)
  have p2: "2 powr of_int ((52 - int k) - 52) = 1 / (2 :: real) ^ k"
    by (simp add: powr_minus powr_realpow divide_simps)
  have "fl x = of_int (round_half_even (x * 2 powr of_int (52 - \<lfloor>log 2 \<bar>x\<bar>\<rfloor>)))
                * 2 powr of_int (\<lfloor>log 2 \<bar>x\<bar>\<rfloor> - 52)"
    using pos by (simp only: fl_def Let_def) simp
  also have "\<dots> = of_int (round_half_even (x * 2 ^ k)) * (1 / 2 ^ k)"
    by (simp only: e p1 p2)
  also have "\<dots> = of_int m / 2 ^ k"
    by (simp add: round_half_even_near [OF assms(3)])
  finally show ?thesis .
qed

lemma fl_sqrt_scaled:
  fixes k :: nat
  assumes "(2 ^ 52)\<^sup>2 \<le> s * (2 ^ k)\<^sup>2" "s * (2 ^ k)\<^sup>2 < (2 ^ 53)\<^sup>2"
    "(of_int m - 1 / 2)\<^sup>2 < s * (2 ^ k)\<^sup>2" "s * (2 ^ k)\<^sup>2 < (of_int m + 1 / 2)\<^sup>2" "1 \<le> m"
  shows "fl (sqrt s) = of_int m / 2 ^ k"
proof (rule fl_scaled)
  have e: "sqrt s * 2 ^ k = sqrt (s * (2 ^ k)\<^sup>2)"
    by (simp add: real_sqrt_mult)
  show "2 ^ 52 \<le> sqrt s * 2 ^ k"
    unfolding e using assms(1) by (intro real_le_rsqrt)
  show "sqrt s * 2 ^ k < 2 ^ 53"
    unfolding e using assms(2) by (intro real_less_lsqrt) simp_all
  have lo: "of_int m - 1 / 2 < sqrt (s * (2 ^ k)\<^sup>2)"
    using assms(3) by (intro real_less_rsqrt)
  have "(0 :: real) \<le> of_int m + 1 / 2" using assms(5) by simp
  then have hi: "sqrt (s * (2 ^ k)\<^sup>2) < of_int m + 1 / 2"
    using assms(4) by (intro real_less_lsqrt)
  show "\<bar>sqrt s * 2 ^ k - of_int m\<bar> < 1 / 2"
    unfolding e abs_less_iff using lo hi by linarith
qed

lemma dot_pair: "dot [a, b] [a', b'] = fl (fl (0 + fl (a * a')) + fl (b * b'))"
  by (simp add: dot_def)

text \<open>
  The kernel on the row \<open>(0.1, 1.0)\<close> against itself, \<open>0.1\<close> being the binary64 number
  \<open>3602879701896397 / 2\<^sup>5\<^sup>5\<close>: the squared norm, the norm, the normalised row and the dot
  product of the normalised row with itself, which is \<open>1 + 2\<^sup>-\<^sup>5\<^sup>2\<close>.
\<close>

lemma kernel_squared_norm:
  "dot [3602879701896397 / 36028797018963968, 1] [3602879701896397 / 36028797018963968, 1] = 4548635623644201 / 2 ^ 52"
proof -
  have q: "fl (3602879701896397 / 36028797018963968 * (3602879701896397 / 36028797018963968)) = 5764607523034236 / 2 ^ 59"
    by (rule fl_scaled [where m = 5764607523034236, simplified]) simp_all
  have q': "fl (0 + 5764607523034236 / 2 ^ 59) = 5764607523034236 / 2 ^ 59"
    by (rule fl_scaled [where m = 5764607523034236, simplified]) simp_all
  have o: "fl (1 * 1) = 1"
    using fl_scaled [where m = 4503599627370496 and k = 52 and x = 1] by simp
  have s: "fl (5764607523034236 / 2 ^ 59 + 1) = 4548635623644201 / 2 ^ 52"
    by (rule fl_scaled [where m = 4548635623644201, simplified]) simp_all
  show ?thesis by (simp only: dot_pair q q' o s)
qed

lemma kernel_norm:
  "row_norm [3602879701896397 / 36028797018963968, 1] = 4526061610239987 / 2 ^ 52"
proof -
  have "fl (sqrt (4548635623644201 / 2 ^ 52)) = 4526061610239987 / 2 ^ 52"
    by (rule fl_sqrt_scaled [where m = 4526061610239987, simplified]) (simp_all add: power2_eq_square)
  then show ?thesis by (simp only: row_norm_def kernel_squared_norm)
qed

lemma kernel_normalized:
  "normalize_row [3602879701896397 / 36028797018963968, 1] = [7169998590479189 / 2 ^ 56, 8962498238098986 / 2 ^ 53]"
proof -
  have h: "handle_zeros_in_scale (4526061610239987 / 2 ^ 52) = 4526061610239987 / 2 ^ 52"
    by (simp add: handle_zeros_in_scale_def eps_def)
  have a: "fl (3602879701896397 / 36028797018963968 / (4526061610239987 / 2 ^ 52)) = 7169998590479189 / 2 ^ 56"
    by (rule fl_scaled [where m = 7169998590479189, simplified]) simp_all
  have b: "fl (1 / (4526061610239987 / 2 ^ 52)) = 8962498238098986 / 2 ^ 53"
    by (rule fl_scaled [where m = 8962498238098986, simplified]) simp_all
  show ?thesis by (simp only: normalize_row_def kernel_norm h list.map a b)
qed

lemma kernel_example:
  "cos_sim [3602879701896397 / 36028797018963968, 1] [3602879701896397 / 36028797018963968, 1] = 4503599627370497 / 2 ^ 52"
proof -
  have p: "fl (7169998590479189 / 2 ^ 56 * (7169998590479189 / 2 ^ 56)) = 5707532201023997 / 2 ^ 59"
    by (rule fl_scaled [where m = 5707532201023997, simplified]) simp_all
  have p': "fl (0 + 5707532201023997 / 2 ^ 59) = 5707532201023997 / 2 ^ 59"
    by (rule fl_scaled [where m = 5707532201023997, simplified]) simp_all
  have q: "fl (8962498238098986 / 2 ^ 53 * (8962498238098986 / 2 ^ 53)) = 8918019064099994 / 2 ^ 53"
    by (rule fl_scaled [where m = 8918019064099994, simplified]) simp_all
  have r: "fl (5707532201023997 / 2 ^ 59 + 8918019064099994 / 2 ^ 53) = 4503599627370497 / 2 ^ 52"
    by (rule fl_scaled [where m = 4503599627370497, simplified]) simp_all
  show ?thesis by (simp only: cos_sim_def kernel_normalized dot_pair p p' q r)
qed

text \<open>
  Claim C6 says that every returned similarity lies in \<open>[-1, 1]\<close>. For a group of two equal
  vectors \<open>(0.1, 1.0)\<close> the one intra-group similarity is \<open>1 + 2\<^sup>-\<^sup>5\<^sup>2\<close>, the binary64 number
  printed as \<^verbatim>\<open>1.0000000000000002\<close>.
\<close>

theorem similarities_range_counterexample:
  "calculate_cosine_similarities [[3602879701896397 / 36028797018963968, 1], [3602879701896397 / 36028797018963968, 1]] None = Inr [4503599627370497 / 2 ^ 52]
   \<and> (1 :: real) < 4503599627370497 / 2 ^ 52"
proof -
  have v: "valid_group [[3602879701896397 / 36028797018963968, 1], [3602879701896397 / 36028797018963968, 1 :: real]]"
    by (simp add: valid_group_def)
  have "[0..<length [[3602879701896397 / 36028797018963968, 1], [3602879701896397 / 36028797018963968, 1 :: real]]] = [0, 1]" by (simp add: upt_conv_Cons)
  then show ?thesis by (simp add: ccs_intra [OF v] kernel_example)
qed

text \<open>
  Claim C6, amended. For a well-formed group \<open>A\<close> of \<open>k\<close> vectors the intra-group call returns
  exactly \<open>k (k - 1) / 2\<close> values: the entries \<open>(i, j)\<close>, \<open>i < j\<close>, of the pairwise
  cosine-similarity matrix, row by row. For well-formed groups \<open>A\<close> and \<open>B\<close> of the same
  dimension the inter-group call returns the \<open>|A| |B|\<close> similarities of the pairs, row by
  row. The values are the rounded results of the library; no range is stated for them.
\<close>

theorem similarities_count_order:
  assumes "valid_group A" "valid_group B" "length (hd A) = length (hd B)"
  shows "(\<exists>xs. calculate_cosine_similarities A None = Inr xs
            \<and> length xs = length A * (length A - 1) div 2
            \<and> xs = concat (map (\<lambda>i. map (\<lambda>j. cos_sim (A ! i) (A ! j)) [i + 1..<length A])
                            [0..<length A]))
       \<and> (\<exists>ys. calculate_cosine_similarities A (Some B) = Inr ys
            \<and> length ys = length A * length B
            \<and> ys = concat (map (\<lambda>x. map (\<lambda>y. cos_sim x y) B) A))"
proof (intro conjI)
  let ?xs = "concat (map (\<lambda>i. map (\<lambda>j. cos_sim (A ! i) (A ! j)) [i + 1..<length A]) [0..<length A])"
  show "\<exists>xs. calculate_cosine_similarities A None = Inr xs
            \<and> length xs = length A * (length A - 1) div 2
            \<and> xs = ?xs"
    by (intro exI [of _ ?xs] conjI ccs_intra [OF assms(1)] length_intra refl)
next
  let ?ys = "concat (map (\<lambda>x. map (\<lambda>y. cos_sim x y) B) A)"
  have len: "length ?ys = length A * length B"
    by (rule length_concat_const) simp
  show "\<exists>ys. calculate_cosine_similarities A (Some B) = Inr ys
            \<and> length ys = length A * length B
            \<and> ys = ?ys"
    by (intro exI [of _ ?ys] conjI ccs_inter [OF assms] len refl)
qed

text \<open>Three vectors of the plane against two: 3 intra-group and 6 inter-group values.\<close>

theorem similarities_count_order_witness:
  "valid_group [[1, 0], [0, 1], [- 1, 0]] \<and> valid_group [[0, - 1], [1, 0]]
   \<and> (\<exists>xs. calculate_cosine_similarities [[1, 0], [0, 1], [- 1, 0]] None = Inr xs
         \<and> length xs = 3
         \<and> xs = [cos_sim [1, 0] [0, 1], cos_sim [1, 0] [- 1, 0], cos_sim [0, 1] [- 1, 0]])
   \<and> (\<exists>ys. calculate_cosine_similarities [[1, 0], [0, 1], [- 1, 0]] (Some [[0, - 1], [1, 0]]) = Inr ys
         \<and> length ys = 6
         \<and> ys = [cos_sim [1, 0] [0, - 1], cos_sim [1, 0] [1, 0], cos_sim [0, 1] [0, - 1],
                  cos_sim [0, 1] [1, 0], cos_sim [- 1, 0] [0, - 1], cos_sim [- 1, 0] [1, 0]])"
proof -
  have v1: "valid_group [[1, 0], [0, 1], [- 1, 0]]" and v2: "valid_group [[0, - 1], [1, 0]]"
    by (simp_all add: valid_group_def)
  have d: "length (hd [[1, 0], [0, 1], [- 1, 0::real]]) = length (hd [[0, - 1], [1, 0::real]])"
    by simp
  from similarities_count_order [OF v1 v2 d] v1 v2 show ?thesis
    by (simp add: upt_conv_Cons)
qed

text \<open>
  Claim C4 requires the intra-group call to fail on a group of fewer than two vectors.
  On a group of one vector it returns the empty collection.
\<close>

theorem similarities_single_vector_counterexample:
  "calculate_cosine_similarities [[1, 0]] None = Inr []"
  by (simp add: calculate_cosine_similarities_def cosine_similarity_def check_pairwise_arrays_def
      check_array_def normalize_def triu_indices_from_def triu_indices_def)

text \<open>
  Claim C4, amended. The similarity operation has no size check of its own; it fails
  exactly when the library's validation does, always with \<^verbatim>\<open>ValueError\<close>: the intra-group
  call when the group is empty, not rectangular or of dimension zero, the inter-group call
  when either group is so or the two dimensions differ. A well-formed group of one vector
  does not fail: its intra-group collection is empty.
\<close>

theorem similarities_failure:
  "((\<exists>e. calculate_cosine_similarities X None = Inl e) \<longleftrightarrow> \<not> valid_group X)
   \<and> ((\<exists>e. calculate_cosine_similarities X (Some Y) = Inl e) \<longleftrightarrow>
        \<not> valid_group X \<or> \<not> valid_group Y \<or> length (hd X) \<noteq> length (hd Y))
   \<and> (\<forall>e. calculate_cosine_similarities X Yo = Inl e \<longrightarrow> e = ValueError)
   \<and> (valid_group X \<and> length X = 1 \<longrightarrow> calculate_cosine_similarities X None = Inr [])"
proof (intro conjI)
  show "(\<exists>e. calculate_cosine_similarities X None = Inl e) \<longleftrightarrow> \<not> valid_group X"
    using ccs_intra [of X] ccs_invalid [of X None] by (cases "valid_group X") auto
  show "(\<exists>e. calculate_cosine_similarities X (Some Y) = Inl e) \<longleftrightarrow>
        \<not> valid_group X \<or> \<not> valid_group Y \<or> length (hd X) \<noteq> length (hd Y)"
    using ccs_inter [of X Y] ccs_invalid [of X "Some Y"] ccs_invalid2 [of Y X]
    by (cases "valid_group X"; cases "valid_group Y"; cases "length (hd X) = length (hd Y)") auto
  show "\<forall>e. calculate_cosine_similarities X Yo = Inl e \<longrightarrow> e = ValueError"
  proof (cases Yo)
    case None
    then show ?thesis
      using ccs_intra [of X] ccs_invalid [of X None] by (cases "valid_group X") auto
  next
    case (Some Y)
    then show ?thesis
      using ccs_inter [of X Y] ccs_invalid [of X "Some Y"] ccs_invalid2 [of Y X]
      by (cases "valid_group X"; cases "valid_group Y"; cases "length (hd X) = length (hd Y)") auto
  qed
  show "valid_group X \<and> length X = 1 \<longrightarrow> calculate_cosine_similarities X None = Inr []"
    using ccs_intra [of X] by auto
qed

text \<open>Rows of different dimensions, groups of different dimensions, no row, one row.\<close>

theorem similarities_failure_witness:
  "\<not> valid_group [[1, 0], [0, 1, 2]]
   \<and> calculate_cosine_similarities [[1, 0], [0, 1, 2]] None = Inl ValueError
   \<and> calculate_cosine_similarities [[1, 0]] (Some [[0, 1, 2]]) = Inl ValueError
   \<and> calculate_cosine_similarities [] None = Inl ValueError
   \<and> calculate_cosine_similarities [[3, 4]] None = Inr []"
proof -
  have v1: "\<not> valid_group [[1, 0], [0, 1, 2]]" "\<not> valid_group []" 
    and v2: "valid_group [[1, 0]]" "valid_group [[0, 1, 2]]" "valid_group [[3, 4]]"
    by (simp_all add: valid_group_def)
  show ?thesis
    using similarities_failure [of "[[1, 0], [0, 1, 2]]" "[]" None]
      similarities_failure [of "[[1, 0]]" "[[0, 1, 2]]" "Some [[0, 1, 2]]"]
      similarities_failure [of "[]" "[]" None]
      similarities_failure [of "[[3, 4]]" "[]" None] v1 v2
    by (auto)
qed

section \<open>Properties of the divergence estimator\<close>

lemma fold_min_le: "fold min r (x::real) \<le> x \<and> (\<forall>y \<in> set r. fold min r x \<le> y)"
proof (induction r arbitrary: x)
  case Nil
  then show ?case by simp
next
  case (Cons a r)
  have 1: "fold min r (min a x) \<le> min a x" and 2: "\<forall>y \<in> set r. fold min r (min a x) \<le> y"
    using Cons.IH [of "min a x"] by simp_all
  from 1 2 show ?case by auto
qed

lemma fold_max_ge: "x \<le> fold max r (x::real) \<and> (\<forall>y \<in> set r. y \<le> fold max r x)"
proof (induction r arbitrary: x)
  case Nil
  then show ?case by simp
next
  case (Cons a r)
  have 1: "max a x \<le> fold max r (max a x)" and 2: "\<forall>y \<in> set r. y \<le> fold max r (max a x)"
    using Cons.IH [of "max a x"] by simp_all
  from 1 2 show ?case by auto
qed

lemma np_min_nonempty:
  assumes "xs \<noteq> []"
  obtains m where "np_min xs = Inr m" "\<forall>x \<in> set xs. m \<le> x"
proof -
  from assms obtain x r where xs: "xs = x # r" by (cases xs) auto
  show thesis
  proof
    show "np_min xs = Inr (fold min r x)" by (simp add: xs np_min_def)
    show "\<forall>y \<in> set xs. fold min r x \<le> y" using fold_min_le [where r = r and x = x] by (simp add: xs)
  qed
qed

lemma np_max_nonempty:
  assumes "xs \<noteq> []"
  obtains m where "np_max xs = Inr m" "\<forall>x \<in> set xs. x \<le> m"
proof -
  from assms obtain x r where xs: "xs = x # r" by (cases xs) auto
  show thesis
  proof
    show "np_max xs = Inr (fold max r x)" by (simp add: xs np_max_def)
    show "\<forall>y \<in> set xs. y \<le> fold max r x" using fold_max_ge [where r = r and x = x] by (simp add: xs)
  qed
qed

lemma linspace_small: "linspace lo hi 0 = Inr []" "linspace lo hi 1 = Inr [lo]"
  by (simp_all add: linspace_def)

lemma linspace_many:
  assumes "2 \<le> n"
  shows "linspace lo hi (int n) = Inr (map (\<lambda>i. real i * ((hi - lo) / real (n - 1)) + lo) [0..<n])"
proof -
  obtain m where n: "n = Suc m" and m: "0 < m" using assms by (cases n) auto
  let ?g = "\<lambda>i. real i * ((hi - lo) / real m) + lo"
  have last: "?g m = hi" using m by simp
  have "butlast (map ?g [0..<Suc m]) @ [hi] = map ?g [0..<m] @ [hi]"
    by simp
  also have "\<dots> = map ?g [0..<m] @ [?g m]" by (simp only: last)
  also have "\<dots> = map ?g [0..<Suc m]" by simp
  finally have "butlast (map ?g [0..<Suc m]) @ [hi] = map ?g [0..<Suc m]" .
  moreover have "nat (1 + int m) = Suc m" by simp
  ultimately show ?thesis using m by (simp add: linspace_def Let_def n del: upt_Suc)
qed

lemma zip_tl_nth:
  "(x, y) \<in> set (zip xs (tl xs)) \<longleftrightarrow> (\<exists>i. Suc i < length xs \<and> x = xs ! i \<and> y = xs ! Suc i)"
proof
  assume "(x, y) \<in> set (zip xs (tl xs))"
  then obtain i where i: "i < length xs" "i < length (tl xs)" and x: "xs ! i = x"
    and y: "tl xs ! i = y"
    by (auto simp: in_set_zip)
  from i have "Suc i < length xs" by simp
  moreover from i y have "y = xs ! Suc i" by (simp add: nth_tl)
  ultimately show "\<exists>i. Suc i < length xs \<and> x = xs ! i \<and> y = xs ! Suc i"
    using x by blast
next
  assume "\<exists>i. Suc i < length xs \<and> x = xs ! i \<and> y = xs ! Suc i"
  then obtain i where i: "Suc i < length xs" and x: "x = xs ! i" and y: "y = xs ! Suc i"
    by blast
  from i have "i < length xs" "i < length (tl xs)" by simp_all
  moreover from i y have "tl xs ! i = y" by (simp add: nth_tl)
  ultimately show "(x, y) \<in> set (zip xs (tl xs))"
    using x by (auto simp: in_set_zip)
qed

lemma histogram_ok:
  assumes "\<And>i. Suc i < length es \<Longrightarrow> es ! i \<le> es ! Suc i"
  shows "histogram a es =
    Inr (map2 (\<lambda>c w. fdiv (fdiv (Fin (real_of_int c)) (Fin w))
                  (Fin (real_of_int (sum_list (np_diff_int (search_sorted_inclusive a es))))))
          (np_diff_int (search_sorted_inclusive a es)) (np_diff es))"
proof -
  have "\<not> (\<exists>(x, y) \<in> set (zip es (tl es)). y < x)"
  proof
    assume "\<exists>(x, y) \<in> set (zip es (tl es)). y < x"
    then obtain x y where "(x, y) \<in> set (zip es (tl es))" "y < x" by blast
    then obtain i where "Suc i < length es" "x = es ! i" "y = es ! Suc i"
      by (auto simp: zip_tl_nth)
    with assms [of i] \<open>y < x\<close> show False by simp
  qed
  then show ?thesis by (simp only: histogram_def if_False Let_def)
qed

lemma length_histogram_parts:
  "length (search_sorted_inclusive a es) = length es"
  "length (np_diff_int cs) = length cs - 1"
  "length (np_diff es) = length es - 1"
  by (cases es rule: rev_cases) (simp_all add: search_sorted_inclusive_def np_diff_int_def np_diff_def)

lemma linspace_mono:
  assumes "lo \<le> hi" "- 1 \<le> bins"
  shows "\<exists>es. linspace lo hi (bins + 1) = Inr es \<and> length es = nat (bins + 1)
           \<and> (\<forall>i. Suc i < length es \<longrightarrow> es ! i \<le> es ! Suc i)"
proof -
  define n where "n = nat (bins + 1)"
  have n: "bins + 1 = int n" using assms(2) by (simp add: n_def)
  consider "n = 0" | "n = 1" | "2 \<le> n" by linarith
  then show ?thesis
  proof cases
    case 1
    then show ?thesis by (simp add: n linspace_small)
  next
    case 2
    then show ?thesis by (simp add: n linspace_small)
  next
    case 3
    let ?g = "\<lambda>i. real i * ((hi - lo) / real (n - 1)) + lo"
    have step: "0 \<le> (hi - lo) / real (n - 1)" using assms(1) 3 by simp
    have "\<forall>i. Suc i < length (map ?g [0..<n]) \<longrightarrow> map ?g [0..<n] ! i \<le> map ?g [0..<n] ! Suc i"
    proof (intro allI impI)
      fix i assume "Suc i < length (map ?g [0..<n])"
      then have i: "Suc i < n" by simp
      then have "map ?g [0..<n] ! i = ?g i" "map ?g [0..<n] ! Suc i = ?g (Suc i)"
        by simp_all
      moreover have eq: "?g (Suc i) = ?g i + (hi - lo) / real (n - 1)"
        by (simp only: of_nat_Suc distrib_right mult_1) simp
      have "?g i \<le> ?g i + (hi - lo) / real (n - 1)"
        using step by simp
      then have "?g i \<le> ?g (Suc i)"
        by (simp only: eq)
      ultimately show "map ?g [0..<n] ! i \<le> map ?g [0..<n] ! Suc i" by simp
    qed
    then show ?thesis
      by (simp only: n linspace_many [OF 3] sum.inject length_map length_upt nat_int) simp
  qed
qed

lemma np_min_eq: "xs \<noteq> [] \<Longrightarrow> np_min xs = Inr (fold min (tl xs) (hd xs))"
  by (cases xs) (simp_all add: np_min_def)

lemma np_max_eq: "xs \<noteq> [] \<Longrightarrow> np_max xs = Inr (fold max (tl xs) (hd xs))"
  by (cases xs) (simp_all add: np_max_def)

lemma joint_lo_le: "s1 \<noteq> [] \<Longrightarrow> x \<in> set s1 \<union> set s2 \<Longrightarrow> s2 \<noteq> [] \<Longrightarrow> joint_lo s1 s2 \<le> x"
proof -
  assume ne: "s1 \<noteq> []" "s2 \<noteq> []" and x: "x \<in> set s1 \<union> set s2"
  obtain a1 r1 where s1: "s1 = a1 # r1" using ne by (cases s1) auto
  obtain a2 r2 where s2: "s2 = a2 # r2" using ne by (cases s2) auto
  from x consider "x \<in> set s1" | "x \<in> set s2" by blast
  then show ?thesis
  proof cases
    case 1
    then have "fold min r1 a1 \<le> x" using fold_min_le [where r = r1 and x = a1] by (auto simp: s1)
    then show ?thesis by (simp add: joint_lo_def s1 s2 min_le_iff_disj)
  next
    case 2
    then have "fold min r2 a2 \<le> x" using fold_min_le [where r = r2 and x = a2] by (auto simp: s2)
    then show ?thesis by (simp add: joint_lo_def s1 s2 min_le_iff_disj)
  qed
qed

lemma joint_hi_ge: "s1 \<noteq> [] \<Longrightarrow> x \<in> set s1 \<union> set s2 \<Longrightarrow> s2 \<noteq> [] \<Longrightarrow> x \<le> joint_hi s1 s2"
proof -
  assume ne: "s1 \<noteq> []" "s2 \<noteq> []" and x: "x \<in> set s1 \<union> set s2"
  obtain a1 r1 where s1: "s1 = a1 # r1" using ne by (cases s1) auto
  obtain a2 r2 where s2: "s2 = a2 # r2" using ne by (cases s2) auto
  from x consider "x \<in> set s1" | "x \<in> set s2" by blast
  then show ?thesis
  proof cases
    case 1
    then have "x \<le> fold max r1 a1" using fold_max_ge [where r = r1 and x = a1] by (auto simp: s1)
    then show ?thesis by (simp add: joint_hi_def s1 s2 le_max_iff_disj)
  next
    case 2
    then have "x \<le> fold max r2 a2" using fold_max_ge [where r = r2 and x = a2] by (auto simp: s2)
    then show ?thesis by (simp add: joint_hi_def s1 s2 le_max_iff_disj)
  qed
qed

lemma joint_lo_le_hi: "s1 \<noteq> [] \<Longrightarrow> s2 \<noteq> [] \<Longrightarrow> joint_lo s1 s2 \<le> joint_hi s1 s2"
proof -
  assume ne: "s1 \<noteq> []" "s2 \<noteq> []"
  then have "hd s1 \<in> set s1 \<union> set s2" by simp
  from joint_lo_le [OF ne(1) this ne(2)] joint_hi_ge [OF ne(1) this ne(2)] show ?thesis by simp
qed

lemma linspace_edges: "0 \<le> num \<Longrightarrow> linspace lo hi num = Inr (edges lo hi (nat num))"
proof -
  assume "0 \<le> num"
  define n where "n = nat num"
  have n: "num = int n" using \<open>0 \<le> num\<close> by (simp add: n_def)
  consider "n = 0" | "n = 1" | "2 \<le> n" by linarith
  then show ?thesis
  proof cases
    case 1
    then show ?thesis by (simp add: n linspace_small edges_def)
  next
    case 2
    then show ?thesis by (simp add: n linspace_small edges_def)
  next
    case 3
    then have "n \<noteq> 0" "n \<noteq> 1" by simp_all
    then show ?thesis by (simp add: n linspace_many [OF 3] edges_def)
  qed
qed

lemma linspace_neg: "num < 0 \<Longrightarrow> linspace lo hi num = Inl ValueError"
  by (simp add: linspace_def)

lemma edges_mono:
  assumes "lo \<le> hi" "Suc i < length (edges lo hi n)"
  shows "edges lo hi n ! i \<le> edges lo hi n ! Suc i"
proof -
  have "0 \<le> int n - 1" "nat (int n - 1 + 1) = n" using assms(2) by (auto simp: edges_def split: if_splits)
  from linspace_mono [OF assms(1), of "int n - 1"] linspace_edges [of "int n" lo hi] assms(2)
  show ?thesis by simp
qed

lemma histogram_edges:
  "lo \<le> hi \<Longrightarrow> histogram a (edges lo hi n) = Inr (density a (edges lo hi n))"
  unfolding density_def by (rule histogram_ok) (rule edges_mono)

lemma calculate_jsd_alt:
  "calculate_jsd bins s1 s2 =
     (if s1 = [] \<or> s2 = [] \<or> bins + 1 < 0 then Inl ValueError
      else Inr (jensenshannon
                 (density s1 (edges (joint_lo s1 s2) (joint_hi s1 s2) (nat (bins + 1))))
                 (density s2 (edges (joint_lo s1 s2) (joint_hi s1 s2) (nat (bins + 1))))))"
proof (cases "s1 = [] \<or> s2 = []")
  case True
  then show ?thesis
    by (cases "s1 = []") (auto simp: calculate_jsd_def bind_err_def np_min_def split: list.splits)
next
  case False
  then have ne: "s1 \<noteq> []" "s2 \<noteq> []" by simp_all
  note le = joint_lo_le_hi [OF ne]
  show ?thesis
  proof (cases "bins + 1 < 0")
    case True
    then show ?thesis using ne
      by (simp add: calculate_jsd_def bind_err_def np_min_eq np_max_eq linspace_neg)
  next
    case False
    then have "0 \<le> bins + 1" by simp
    from linspace_edges [OF this] histogram_edges [OF le] False ne show ?thesis
      by (simp add: calculate_jsd_def bind_err_def np_min_eq np_max_eq joint_lo_def joint_hi_def)
  qed
qed






lemma fadd_nonfin: "\<not> finite_float x \<Longrightarrow> \<not> finite_float (fadd x y)"
  by (cases x; cases y) simp_all

lemma np_sum_nonfin: "xs \<noteq> [] \<Longrightarrow> \<forall>x \<in> set xs. \<not> finite_float x \<Longrightarrow> \<not> finite_float (np_sum xs)"
  by (cases xs) (simp_all add: np_sum_def fadd_nonfin)

lemma fdiv_nonfin: "\<not> finite_float x \<Longrightarrow> \<not> finite_float s \<Longrightarrow> fdiv x s = NaN"
  by (cases x; cases s) simp_all

lemma fdiv_zero_nonfin: "\<not> finite_float (fdiv (fdiv (Fin c) (Fin 0)) (Fin N))"
  by simp

lemma np_sum_replicate_nan: "0 < k \<Longrightarrow> np_sum (replicate k NaN) = NaN"
  by (cases k) (simp_all add: np_sum_def)

lemma normalise_nonfin:
  assumes "xs \<noteq> []" "\<forall>x \<in> set xs. \<not> finite_float x"
  shows "map (\<lambda>x. fdiv x (np_sum xs)) xs = replicate (length xs) NaN"
proof -
  have "map (\<lambda>x. fdiv x (np_sum xs)) xs = map (\<lambda>x. NaN) xs"
    using assms np_sum_nonfin [OF assms] by (intro map_cong refl fdiv_nonfin) auto
  then show ?thesis by (simp add: map_replicate_const)
qed

lemma map2_replicate_nan:
  "f NaN NaN = NaN \<Longrightarrow> map2 f (replicate a NaN) (replicate b NaN) = replicate (min a b) NaN"
  by (simp add: zip_replicate)

lemma jensenshannon_nan:
  assumes "p \<noteq> []" "q \<noteq> []" "\<forall>x \<in> set p. \<not> finite_float x" "\<forall>x \<in> set q. \<not> finite_float x"
  shows "jensenshannon p q = NaN"
proof -
  have k: "0 < min (length p) (length q)" "0 < min (length p) (min (length p) (length q))"
    "0 < min (length q) (min (length p) (length q))"
    using assms(1,2) by simp_all
  have r: "rel_entr NaN NaN = NaN" "fdiv (fadd NaN NaN) (Fin 2) = NaN"
    by (simp_all add: rel_entr_def)
  show ?thesis
    unfolding jensenshannon_def Let_def
    by (simp only: normalise_nonfin [OF assms(1,3)] normalise_nonfin [OF assms(2,4)]
        map2_replicate_nan r np_sum_replicate_nan [OF k(1)] np_sum_replicate_nan [OF k(2)]
        np_sum_replicate_nan [OF k(3)] fadd.simps fdiv.simps fsqrt.simps)
qed

lemma fold_min_const: "\<forall>x \<in> set r. x = v \<Longrightarrow> fold min r v = (v::real)"
  by (induction r) simp_all

lemma fold_max_const: "\<forall>x \<in> set r. x = v \<Longrightarrow> fold max r v = (v::real)"
  by (induction r) simp_all

lemma joint_const:
  assumes "s1 \<noteq> []" "s2 \<noteq> []" "\<forall>x \<in> set s1 \<union> set s2. x = v"
  shows "joint_lo s1 s2 = v" "joint_hi s1 s2 = v"
proof -
  obtain a1 r1 where s1: "s1 = a1 # r1" using assms(1) by (cases s1) auto
  obtain a2 r2 where s2: "s2 = a2 # r2" using assms(2) by (cases s2) auto
  have a: "a1 = v" "a2 = v" and r: "\<forall>x \<in> set r1. x = v" "\<forall>x \<in> set r2. x = v"
    using assms(3) by (auto simp: s1 s2)
  show "joint_lo s1 s2 = v" "joint_hi s1 s2 = v"
    by (simp_all add: joint_lo_def joint_hi_def s1 s2 a fold_min_const [OF r(1)]
        fold_min_const [OF r(2)] fold_max_const [OF r(1)] fold_max_const [OF r(2)])
qed

lemma edges_const: "edges v v n = replicate n v"
proof -
  have "map (\<lambda>i. real i * ((v - v) / real (n - 1)) + v) [0..<n] = replicate n v"
    by (simp add: map_replicate_const)
  then show ?thesis
    by (cases "n = 0"; cases "n = 1") (simp_all add: edges_def)
qed

lemma np_diff_replicate: "np_diff (replicate n v) = replicate (n - 1) 0"
  by (simp add: np_diff_def tl_replicate zip_replicate)

lemma density_degenerate:
  "\<forall>x \<in> set (density a (replicate n v)). \<not> finite_float x"
  "length (density a (replicate n v)) = n - 1"
proof -
  show "\<forall>x \<in> set (density a (replicate n v)). \<not> finite_float x"
    unfolding density_def np_diff_replicate
    by (auto dest!: set_zip_rightD split: if_splits)
  show "length (density a (replicate n v)) = n - 1"
    by (simp add: density_def length_histogram_parts)
qed

lemma calculate_jsd_degenerate:
  assumes "s1 \<noteq> []" "s2 \<noteq> []" "\<forall>x \<in> set s1 \<union> set s2. x = v" "1 \<le> bins"
  shows "calculate_jsd bins s1 s2 = Inr NaN"
proof -
  let ?n = "nat (bins + 1)"
  have n: "?n - 1 \<noteq> 0" using assms(4) by simp
  have ne: "density s1 (replicate ?n v) \<noteq> []" "density s2 (replicate ?n v) \<noteq> []"
    using n density_degenerate(2) [of _ ?n v] by (metis length_0_conv)+
  have "jensenshannon (density s1 (replicate ?n v)) (density s2 (replicate ?n v)) = NaN"
    by (rule jensenshannon_nan [OF ne density_degenerate(1) density_degenerate(1)])
  then show ?thesis
    using assms
    by (simp add: calculate_jsd_alt joint_const [OF assms(1-3)] edges_const)
qed

lemma calculate_jsd_ok:
  "s1 \<noteq> [] \<Longrightarrow> s2 \<noteq> [] \<Longrightarrow> - 1 \<le> bins \<Longrightarrow> \<exists>t. calculate_jsd bins s1 s2 = Inr t"
  by (simp add: calculate_jsd_alt)

text \<open>
  Claim C5 says that a degenerate bin range is handled by widening the range by an
  epsilon, so that no bin width is zero. With the collections \<open>[1]\<close> and \<open>[1, 1]\<close> and
  the default 30 bins, the 31 edges all equal 1: the range is not widened, the widths are
  zero, the density is \<open>0 / 0\<close> in 29 bins and \<open>1 / 0\<close> in the last, and the divergence
  is NaN.
\<close>

theorem zero_variance_counterexample:
  "linspace 1 1 (30 + 1) = Inr (replicate 31 1)
   \<and> histogram [1] (replicate 31 1) = Inr (replicate 29 NaN @ [PInf])
   \<and> calculate_jsd 30 [1] [1, 1] = Inr NaN"
proof (intro conjI)
  show "linspace 1 1 (30 + 1) = Inr (replicate 31 1)"
    using linspace_edges [of 31 1 1] by (simp add: edges_const)
  show "histogram [1] (replicate 31 1) = Inr (replicate 29 NaN @ [PInf])"
    by (simp add: histogram_def search_sorted_inclusive_def np_diff_def np_diff_int_def Let_def
        eval_nat_numeral)
  show "calculate_jsd 30 [1] [1, 1] = Inr NaN"
    by (rule calculate_jsd_degenerate [where v = 1]) simp_all
qed

text \<open>
  Claim C5, amended. On non-empty collections the computation raises no error (for a bin
  count of at least \<open>-1\<close>). There is no guard for a degenerate range: when all values of
  both collections are the same \<open>v\<close> and there is at least one bin, every edge is \<open>v\<close>,
  every bin width is zero, and the result is NaN.
\<close>

theorem zero_variance_yields_nan:
  assumes "s1 \<noteq> []" "s2 \<noteq> []"
  shows "(- 1 \<le> bins \<longrightarrow> (\<exists>t. calculate_jsd bins s1 s2 = Inr t))
       \<and> ((\<forall>x \<in> set s1 \<union> set s2. x = v) \<and> 1 \<le> bins \<longrightarrow>
            linspace (joint_lo s1 s2) (joint_hi s1 s2) (bins + 1) = Inr (replicate (nat (bins + 1)) v)
            \<and> np_diff (replicate (nat (bins + 1)) v) = replicate (nat bins) 0
            \<and> calculate_jsd bins s1 s2 = Inr NaN)"
proof (intro conjI impI)
  assume "- 1 \<le> bins"
  with assms show "\<exists>t. calculate_jsd bins s1 s2 = Inr t" by (rule calculate_jsd_ok)
next
  assume h: "(\<forall>x \<in> set s1 \<union> set s2. x = v) \<and> 1 \<le> bins"
  then have c: "\<forall>x \<in> set s1 \<union> set s2. x = v" and b: "1 \<le> bins" by simp_all
  from b have "0 \<le> bins + 1" by simp
  from linspace_edges [OF this]
  show "linspace (joint_lo s1 s2) (joint_hi s1 s2) (bins + 1) = Inr (replicate (nat (bins + 1)) v)"
    by (simp add: joint_const [OF assms c] edges_const)
  have "nat (bins + 1) - 1 = nat bins" using b by simp
  then show "np_diff (replicate (nat (bins + 1)) v) = replicate (nat bins) 0"
    by (simp only: np_diff_replicate)
  show "calculate_jsd bins s1 s2 = Inr NaN"
    by (rule calculate_jsd_degenerate [OF assms c b])
qed

text \<open>One similarity against three, all equal to one half.\<close>

theorem zero_variance_yields_nan_witness:
  "(\<exists>t. calculate_jsd 30 [1 / 2] [1 / 2, 1 / 2, 1 / 2] = Inr t)
   \<and> linspace (joint_lo [1 / 2] [1 / 2, 1 / 2, 1 / 2]) (joint_hi [1 / 2] [1 / 2, 1 / 2, 1 / 2]) (30 + 1)
       = Inr (replicate 31 (1 / 2))
   \<and> calculate_jsd 30 [1 / 2] [1 / 2, 1 / 2, 1 / 2] = Inr NaN"
  using zero_variance_yields_nan [of "[1 / 2]" "[1 / 2, 1 / 2, 1 / 2]" 30 "1 / 2"]
  by simp


























section \<open>Properties of the permutation tester\<close>

lemma bind_err_simps [simp]: "bind_err (Inl e) f = Inl e" "bind_err (Inr x) f = f x"
  by (simp_all add: bind_err_def)

lemma fancy_index_eq:
  "fancy_index M idx = (if \<forall>i \<in> set idx. i < length M then Inr (map (\<lambda>i. M ! i) idx) else Inl IndexError)"
proof -
  have "(\<exists>i \<in> set idx. length M \<le> i) \<longleftrightarrow> \<not> (\<forall>i \<in> set idx. i < length M)"
    by (meson not_le)
  then show ?thesis by (simp add: fancy_index_def)
qed

lemma loop_body:
  "bind_err (fancy_index Z (take k p)) (\<lambda>g1.
   bind_err (fancy_index Z (drop k p)) (\<lambda>g2.
   bind_err (calculate_cosine_similarities g1 None) (\<lambda>p0.
   bind_err (calculate_cosine_similarities g1 (Some g2)) (\<lambda>p1.
   bind_err (calculate_jsd bins p0 p1) F))))
   = bind_err (permuted_statistic bins Z k p) F"
proof -
  have s: "set p = set (take k p) \<union> set (drop k p)"
    by (metis append_take_drop_id set_append)
  show ?thesis
  proof (cases "\<forall>i \<in> set p. i < length Z")
    case True
    then have "\<forall>i \<in> set (take k p). i < length Z" "\<forall>i \<in> set (drop k p). i < length Z"
      using s by auto
    with True show ?thesis
      by (simp add: permuted_statistic_def test_statistic_def fancy_index_eq take_map drop_map
          bind_err_def split: sum.splits)
  next
    case False
    then have "\<not> (\<forall>i \<in> set (take k p). i < length Z) \<or> \<not> (\<forall>i \<in> set (drop k p). i < length Z)"
      using s by auto
    with False show ?thesis
      by (auto simp add: permuted_statistic_def fancy_index_eq)
  qed
qed

lemma perm_loop_Suc:
  "perm_loop draw bins Z k obs (Suc n) g c =
     (case draw g (length Z) of (p, g') \<Rightarrow>
        bind_err (permuted_statistic bins Z k p) (\<lambda>t.
          perm_loop draw bins Z k obs n g' (if fge t obs then c + 1 else c)))"
  by (simp add: loop_body split: prod.splits)

lemma exceed_count_Cons:
  "permuted_statistic bins Z k p = Inr t \<Longrightarrow>
   exceed_count bins Z k obs (p # ps) = (if fge t obs then 1 else 0) + exceed_count bins Z k obs ps"
  by (simp add: exceed_count_def)

lemma perm_loop_eq:
  assumes "\<forall>p \<in> set (draws draw g (length Z) n). \<exists>t. permuted_statistic bins Z k p = Inr t"
  shows "perm_loop draw bins Z k obs n g c =
    Inr (c + int (exceed_count bins Z k obs (draws draw g (length Z) n)),
         final_state draw g (length Z) n)"
  using assms
proof (induction n arbitrary: g c)
  case 0
  then show ?case by (simp add: exceed_count_def)
next
  case (Suc n)
  obtain p g' where d: "draw g (length Z) = (p, g')" by (cases "draw g (length Z)")
  from Suc.prems d obtain t where t: "permuted_statistic bins Z k p = Inr t"
    and rest: "\<forall>q \<in> set (draws draw g' (length Z) n). \<exists>t. permuted_statistic bins Z k q = Inr t"
    by auto
  show ?case
    by (simp add: perm_loop_Suc d t Suc.IH [OF rest] exceed_count_Cons [OF t] del: perm_loop.simps)
qed

lemma perm_loop_deterministic:
  assumes "draws draw g (length Z) n = draws draw' g' (length Z) n"
  shows "map_sum id fst (perm_loop draw bins Z k obs n g c)
       = map_sum id fst (perm_loop draw' bins Z k obs n g' c)"
  using assms
proof (induction n arbitrary: g g' c)
  case 0
  then show ?case by simp
next
  case (Suc n)
  obtain p h where d: "draw g (length Z) = (p, h)" by (cases "draw g (length Z)")
  obtain p' h' where d': "draw' g' (length Z) = (p', h')" by (cases "draw' g' (length Z)")
  from Suc.prems d d' have pp: "p' = p" and rest: "draws draw h (length Z) n = draws draw' h' (length Z) n"
    by simp_all
  show ?case
  proof (cases "permuted_statistic bins Z k p")
    case (Inl e)
    then show ?thesis by (simp add: perm_loop_Suc d d' pp del: perm_loop.simps)
  next
    case (Inr t)
    then show ?thesis
      using Suc.IH [OF rest] by (simp add: perm_loop_Suc d d' pp del: perm_loop.simps)
  qed
qed

lemma valid_groupI:
  assumes "G \<noteq> []" "\<forall>r \<in> set G. length r = d" "0 < d"
  shows "valid_group G" "length (hd G) = d"
proof -
  have hd: "hd G \<in> set G" using assms(1) by simp
  with assms(2) show d: "length (hd G) = d" by blast
  show "valid_group G"
    unfolding valid_group_def list_all_iff
  proof (intro conjI ballI)
    show "G \<noteq> []" by (rule assms(1))
    show "length r = length (hd G)" if "r \<in> set G" for r
      using assms(2) that by (simp only: d)
    show "0 < length (hd G)" using assms(3) by (simp only: d)
  qed
qed

lemma valid_group_pos: "valid_group X \<Longrightarrow> 0 < length (hd X)"
  unfolding valid_group_def by blast

lemma is_permutation_mset: "is_permutation p n \<Longrightarrow> mset p = mset [0..<n]"
  unfolding is_permutation_def by (metis mset_sort)

lemma is_permutation_set: "is_permutation p n \<Longrightarrow> set p = {0..<n}"
  by (drule is_permutation_mset) (metis set_mset_mset set_upt)

lemma is_permutation_length: "is_permutation p n \<Longrightarrow> length p = n"
  by (drule is_permutation_mset) (metis length_upt minus_nat.diff_0 size_mset)

lemma fancy_index_permutation:
  assumes "is_permutation p (length Z)"
  shows "fancy_index Z p = Inr (map (\<lambda>i. Z ! i) p)" "mset (map (\<lambda>i. Z ! i) p) = mset Z"
proof -
  show "fancy_index Z p = Inr (map (\<lambda>i. Z ! i) p)"
    using is_permutation_set [OF assms] by (simp add: fancy_index_eq)
  have "mset (map (\<lambda>i. Z ! i) p) = image_mset (\<lambda>i. Z ! i) (mset p)" by simp
  also have "\<dots> = image_mset (\<lambda>i. Z ! i) (mset [0..<length Z])"
    by (simp only: is_permutation_mset [OF assms])
  also have "\<dots> = mset (map (\<lambda>i. Z ! i) [0..<length Z])" by simp
  also have "\<dots> = mset Z" by (simp only: map_nth)
  finally show "mset (map (\<lambda>i. Z ! i) p) = mset Z" .
qed

lemma vstack_valid:
  assumes "valid_group A" "valid_group B" "length (hd A) = length (hd B)"
  shows "vstack A B = Inr (A @ B)"
proof -
  have hd: "hd (A @ B) = hd A" using valid_group_nonempty [OF assms(1)] by simp
  have "\<not> (\<exists>r \<in> set (A @ B). length r \<noteq> length (hd (A @ B)))"
    using valid_group_row [OF assms(1)] valid_group_row [OF assms(2)] assms(3)
    by (auto simp only: hd set_append Un_iff)
  then show ?thesis by (simp only: vstack_def if_False)
qed

lemma vstack_Inr: "vstack A B = Inr Z \<Longrightarrow> Z = A @ B"
  by (simp add: vstack_def split: if_splits)

lemma similarities_shape:
  assumes "valid_group A" "valid_group B" "length (hd A) = length (hd B)"
  shows "\<exists>xs ys. calculate_cosine_similarities A None = Inr xs
           \<and> length xs = length A * (length A - 1) div 2
           \<and> calculate_cosine_similarities A (Some B) = Inr ys
           \<and> length ys = length A * length B"
proof -
  have "length (concat (map (\<lambda>x. map (\<lambda>y. cos_sim x y) B) A)) = length A * length B"
    by (rule length_concat_const) simp
  with ccs_intra [OF assms(1)] ccs_inter [OF assms] length_intra show ?thesis
    by (intro exI conjI) auto
qed

lemma test_statistic_ok:
  assumes "valid_group G1" "valid_group G2" "length (hd G1) = length (hd G2)" "2 \<le> length G1"
    "- 1 \<le> bins"
  shows "\<exists>t. test_statistic bins G1 G2 = Inr t"
proof -
  let ?k = "length G1"
  from similarities_shape [OF assms(1-3)]
  obtain xs ys where xs: "calculate_cosine_similarities G1 None = Inr xs"
      "length xs = ?k * (?k - 1) div 2"
    and ys: "calculate_cosine_similarities G1 (Some G2) = Inr ys" "length ys = ?k * length G2"
    by blast
  define j where "j = ?k - 2"
  have j: "?k = Suc (Suc j)" using assms(4) by (simp add: j_def)
  have "?k * (?k - 1) = 2 + (3 * j + j * j)" by (simp add: j)
  then have "0 < ?k * (?k - 1) div 2" by simp
  then have lx: "0 < length xs" by (simp only: xs(2))
  have "0 < length G2" using valid_group_nonempty [OF assms(2)] by simp
  moreover have "0 < length G1" using assms(4) by (cases G1) simp_all
  ultimately have "0 < length ys" by (simp only: ys(2)) simp
  note lx
  with \<open>0 < length ys\<close> have "xs \<noteq> []" "ys \<noteq> []" by auto
  from calculate_jsd_ok [OF this assms(5)] show ?thesis
    by (simp add: test_statistic_def xs(1) ys(1))
qed

lemma draws_permutations:
  assumes "\<forall>g. is_permutation (fst (draw g m)) m"
  shows "\<forall>p \<in> set (draws draw g m n). is_permutation p m"
proof (induction n arbitrary: g)
  case 0
  show ?case by simp
next
  case (Suc n)
  obtain p h where d: "draw g m = (p, h)" by (cases "draw g m")
  from assms have "is_permutation (fst (draw g m)) m" by blast
  then have "is_permutation p m" by (simp add: d)
  with Suc.IH [of h] show ?case by (simp add: d)
qed

lemma length_draws: "length (draws draw g m n) = n"
proof (induction n arbitrary: g)
  case 0
  show ?case by simp
next
  case (Suc n)
  obtain p h where d: "draw g m = (p, h)" by (cases "draw g m")
  show ?case by (simp add: d Suc.IH)
qed

lemma exceed_count_le: "exceed_count bins Z k obs ps \<le> length ps"
  by (simp add: exceed_count_def)

lemma fancy_index_split:
  assumes "is_permutation p (length Z)" "k \<le> length Z"
  shows "fancy_index Z (take k p) = Inr (take k (map (\<lambda>i. Z ! i) p))"
    "fancy_index Z (drop k p) = Inr (drop k (map (\<lambda>i. Z ! i) p))"
    "length (take k (map (\<lambda>i. Z ! i) p)) = k"
    "length (drop k (map (\<lambda>i. Z ! i) p)) = length Z - k"
proof -
  have s: "\<forall>i \<in> set p. i < length Z" using is_permutation_set [OF assms(1)] by simp
  have "\<forall>i \<in> set (take k p). i < length Z" using s by (meson in_set_takeD)
  then show "fancy_index Z (take k p) = Inr (take k (map (\<lambda>i. Z ! i) p))"
    by (simp add: fancy_index_eq take_map)
  have "\<forall>i \<in> set (drop k p). i < length Z" using s by (meson in_set_dropD)
  then show "fancy_index Z (drop k p) = Inr (drop k (map (\<lambda>i. Z ! i) p))"
    by (simp add: fancy_index_eq drop_map)
  show "length (take k (map (\<lambda>i. Z ! i) p)) = k"
    using is_permutation_length [OF assms(1)] assms(2) by simp
  show "length (drop k (map (\<lambda>i. Z ! i) p)) = length Z - k"
    using is_permutation_length [OF assms(1)] by simp
qed

lemma permuted_statistic_ok:
  assumes "valid_group A" "valid_group B" "length (hd A) = length (hd B)" "2 \<le> length A"
    "- 1 \<le> bins" "is_permutation p (length A + length B)"
  shows "\<exists>t. permuted_statistic bins (A @ B) (length A) p = Inr t"
proof -
  let ?Z = "A @ B"
  let ?Z' = "map (\<lambda>i. ?Z ! i) p"
  let ?d = "length (hd A)"
  have perm: "is_permutation p (length ?Z)" using assms(6) by simp
  note fi = fancy_index_permutation [OF perm]
  have rows: "length r = ?d" if "r \<in> set ?Z'" for r
  proof -
    from that have "r \<in># mset ?Z'" by (simp only: set_mset_mset)
    then have "r \<in># mset ?Z" by (simp only: fi(2))
    then have "r \<in> set A \<or> r \<in> set B" by simp
    then show ?thesis
      using valid_group_row [OF assms(1)] valid_group_row [OF assms(2)] assms(3) by auto
  qed
  have len: "length ?Z' = length A + length B"
    using is_permutation_length [OF assms(6)] by simp
  have lt: "length (take (length A) ?Z') = length A" using len by simp
  have ld: "length (drop (length A) ?Z') = length B" using len by simp
  have "0 < length A" using assms(4) by (cases A) simp_all
  then have g1: "take (length A) ?Z' \<noteq> []" using lt by (metis length_greater_0_conv)
  have "0 < length B" using valid_group_nonempty [OF assms(2)] by simp
  then have g2: "drop (length A) ?Z' \<noteq> []" using ld by (metis length_greater_0_conv)
  have r1: "\<forall>r \<in> set (take (length A) ?Z'). length r = ?d"
    using rows by (meson in_set_takeD)
  have r2: "\<forall>r \<in> set (drop (length A) ?Z'). length r = ?d"
    using rows by (meson in_set_dropD)
  note v1 = valid_groupI [OF g1 r1 valid_group_pos [OF assms(1)]]
  note v2 = valid_groupI [OF g2 r2 valid_group_pos [OF assms(1)]]
  have d: "length (hd (take (length A) ?Z')) = length (hd (drop (length A) ?Z'))"
    by (simp only: v1(2) v2(2))
  have two: "2 \<le> length (take (length A) ?Z')" using assms(4) by (simp only: lt)
  from test_statistic_ok [OF v1(1) v2(1) d two assms(5)]
  show ?thesis by (simp only: permuted_statistic_def fi(1) bind_err_simps)
qed

lemma permutation_test_result:
  assumes "valid_group A" "valid_group B" "length (hd A) = length (hd B)" "2 \<le> length A"
    "- 1 \<le> bins" "\<forall>g. is_permutation (fst (draw g (length A + length B))) (length A + length B)"
  shows "\<exists>obs. test_statistic bins A B = Inr obs
    \<and> perm_loop draw bins (A @ B) (length A) obs n g 0
        = Inr (int (exceed_count bins (A @ B) (length A) obs (draws draw g (length A + length B) n)),
               final_state draw g (length A + length B) n)"
proof -
  from test_statistic_ok [OF assms(1-5)] obtain obs where obs: "test_statistic bins A B = Inr obs"
    by blast
  have "\<forall>p \<in> set (draws draw g (length (A @ B)) n).
          \<exists>t. permuted_statistic bins (A @ B) (length A) p = Inr t"
  proof
    fix p assume "p \<in> set (draws draw g (length (A @ B)) n)"
    then have "p \<in> set (draws draw g (length A + length B) n)" by simp
    with draws_permutations [of draw "length A + length B", OF assms(6)] have "is_permutation p (length A + length B)" by blast
    from permuted_statistic_ok [OF assms(1-5) this]
    show "\<exists>t. permuted_statistic bins (A @ B) (length A) p = Inr t" .
  qed
  from perm_loop_eq [OF this, of obs 0]
  have "perm_loop draw bins (A @ B) (length A) obs n g 0
        = Inr (int (exceed_count bins (A @ B) (length A) obs (draws draw g (length A + length B) n)),
               final_state draw g (length A + length B) n)"
    by simp
  with obs show ?thesis by blast
qed

lemma jsdp_unfold:
  assumes "test_statistic bins A B = Inr obs" "vstack A B = Inr Z"
    "perm_loop draw bins Z (length A) obs (nat num) g 0 = Inr (c, g')"
  shows "jensen_shannon_divergence_and_pvalue draw g A B num bins =
    (if num + 1 = 0 then Inl ZeroDivisionError
     else Inr ((obs, real_of_int (c + 1) / real_of_int (num + 1)), g'))"
proof -
  from assms(1) obtain p0 p1 where p: "calculate_cosine_similarities A None = Inr p0"
      "calculate_cosine_similarities A (Some B) = Inr p1" "calculate_jsd bins p0 p1 = Inr obs"
    by (auto simp add: test_statistic_def bind_err_def split: sum.splits)
  show ?thesis
    by (simp add: jensen_shannon_divergence_and_pvalue_def p assms(2,3))
qed

lemma is_permutation_rev: "is_permutation (rev [0..<n]) n"
  unfolding is_permutation_def by (rule properties_for_sort) simp_all

lemma is_permutation_upt: "is_permutation [0..<n] n"
  by (simp add: is_permutation_def)

lemma jsdp_deterministic:
  assumes "draws draw g (length e1 + length e2) n = draws draw' g' (length e1 + length e2) n"
  shows "map_sum id fst (bind_err (perm_loop draw bins (e1 @ e2) k obs n g 0) (\<lambda>(cnt, h).
           if b then Inl e else Inr (v cnt, h)))
       = map_sum id fst (bind_err (perm_loop draw' bins (e1 @ e2) k obs n g' 0) (\<lambda>(cnt, h).
           if b then Inl e else Inr (v cnt, h)))"
proof -
  from assms have "draws draw g (length (e1 @ e2)) n = draws draw' g' (length (e1 @ e2)) n"
    by simp
  from perm_loop_deterministic [OF this, of bins k obs 0]
  have eq: "map_sum id fst (perm_loop draw bins (e1 @ e2) k obs n g 0)
       = map_sum id fst (perm_loop draw' bins (e1 @ e2) k obs n g' 0)" .
  show ?thesis
  proof (cases "perm_loop draw bins (e1 @ e2) k obs n g 0")
    case (Inl x)
    with eq have "perm_loop draw' bins (e1 @ e2) k obs n g' 0 = Inl x"
      by (cases "perm_loop draw' bins (e1 @ e2) k obs n g' 0") simp_all
    with Inl show ?thesis by simp
  next
    case (Inr r)
    obtain c h where r: "r = (c, h)" by (cases r)
    from eq Inr r obtain h' where "perm_loop draw' bins (e1 @ e2) k obs n g' 0 = Inr (c, h')"
      by (cases "perm_loop draw' bins (e1 @ e2) k obs n g' 0") auto
    with Inr r show ?thesis by simp
  qed
qed


lemma perm_loop_traced_erase:
  "map_sum id (\<lambda>(cnt, g', groups). (cnt, g')) (perm_loop_traced draw bins Z k obs n g c tr)
   = perm_loop draw bins Z k obs n g c"
proof (induction n arbitrary: g c tr)
  case 0
  show ?case by simp
next
  case (Suc n)
  obtain p h where d: "draw g (length Z) = (p, h)" by (cases "draw g (length Z)")
  show ?case
    by (simp add: d bind_err_def Suc.IH [unfolded id_def] split: sum.splits)
qed

lemma traced_erase:
  "map_sum id (\<lambda>(r, g', groups). (r, g'))
     (jensen_shannon_divergence_and_pvalue_traced draw g A B num bins)
   = jensen_shannon_divergence_and_pvalue draw g A B num bins"
proof -
  have e: "map_sum id (\<lambda>(r, g', groups). (r, g'))
        (bind_err (perm_loop_traced draw bins Z k obs n g 0 []) (\<lambda>(cnt, g', groups).
           if b then Inl ZeroDivisionError else Inr (F cnt, g', groups)))
      = bind_err (perm_loop draw bins Z k obs n g 0) (\<lambda>(cnt, g').
           if b then Inl ZeroDivisionError else Inr (F cnt, g'))" for Z k obs n b F
    using perm_loop_traced_erase [of draw bins Z k obs n g 0 "[]", symmetric]
    by (cases "perm_loop_traced draw bins Z k obs n g 0 []") (auto simp add: bind_err_def)
  show ?thesis
    unfolding jensen_shannon_divergence_and_pvalue_traced_def jensen_shannon_divergence_and_pvalue_def
    by (auto simp add: bind_err_def e [unfolded bind_err_def] split: sum.splits)
qed

lemma perm_loop_traced_eq:
  assumes "\<forall>p \<in> set (draws draw g (length Z) n).
             is_permutation p (length Z) \<and> (\<exists>t. permuted_statistic bins Z k p = Inr t)"
    and "k \<le> length Z"
  shows "perm_loop_traced draw bins Z k obs n g c tr =
    Inr (c + int (exceed_count bins Z k obs (draws draw g (length Z) n)),
         final_state draw g (length Z) n,
         tr @ map (split_pool Z k) (draws draw g (length Z) n))"
  using assms(1)
proof (induction n arbitrary: g c tr)
  case 0
  then show ?case by (simp add: exceed_count_def)
next
  case (Suc n)
  obtain p h where d: "draw g (length Z) = (p, h)" by (cases "draw g (length Z)")
  from Suc.prems d have perm: "is_permutation p (length Z)"
    and rest: "\<forall>p \<in> set (draws draw h (length Z) n).
             is_permutation p (length Z) \<and> (\<exists>t. permuted_statistic bins Z k p = Inr t)"
    by simp_all
  from Suc.prems d obtain t where t: "permuted_statistic bins Z k p = Inr t" by auto
  let ?Z' = "map (\<lambda>i. Z ! i) p"
  note fs = fancy_index_split [OF perm assms(2)]
  from t have "test_statistic bins (take k ?Z') (drop k ?Z') = Inr t"
    by (simp add: permuted_statistic_def fancy_index_permutation(1) [OF perm])
  then obtain p0 p1 where p0: "calculate_cosine_similarities (take k ?Z') None = Inr p0"
    and p1: "calculate_cosine_similarities (take k ?Z') (Some (drop k ?Z')) = Inr p1"
    and j: "calculate_jsd bins p0 p1 = Inr t"
    by (auto simp add: test_statistic_def bind_err_def split: sum.splits)
  show ?case
    by (simp add: d fs(1) fs(2) p0 p1 j Suc.IH [OF rest] exceed_count_Cons [OF t] split_pool_def)
qed

lemma test_statistic_closed:
  assumes "valid_group A" "valid_group B" "length (hd A) = length (hd B)"
  shows "test_statistic bins A B
       = calculate_jsd bins (intra_similarities A) (inter_similarities A B)"
proof -
  have ci: "calculate_cosine_similarities A None = Inr (intra_similarities A)"
    by (simp only: ccs_intra [OF assms(1)] intra_similarities_def)
  have ce: "calculate_cosine_similarities A (Some B) = Inr (inter_similarities A B)"
    by (simp only: ccs_inter [OF assms(1-3)] inter_similarities_def)
  show ?thesis by (simp add: test_statistic_def ci ce)
qed

lemma split_pool_partition:
  assumes "is_permutation p (length A + length B)"
  shows "length (fst (split_pool (A @ B) (length A) p)) = length A"
    "length (snd (split_pool (A @ B) (length A) p)) = length B"
    "mset (fst (split_pool (A @ B) (length A) p) @ snd (split_pool (A @ B) (length A) p))
       = mset A + mset B"
proof -
  have perm: "is_permutation p (length (A @ B))" using assms by simp
  have k: "length A \<le> length (A @ B)" by simp
  note fs = fancy_index_split [OF perm k]
  show "length (fst (split_pool (A @ B) (length A) p)) = length A"
    using fs(3) by (simp add: split_pool_def)
  show "length (snd (split_pool (A @ B) (length A) p)) = length B"
    using fs(4) by (simp add: split_pool_def)
  have "mset (map (\<lambda>i. (A @ B) ! i) p) = mset (A @ B)"
    by (rule fancy_index_permutation(2) [OF perm])
  then show "mset (fst (split_pool (A @ B) (length A) p) @ snd (split_pool (A @ B) (length A) p))
       = mset A + mset B"
    by (simp add: split_pool_def)
qed

lemma traced_result:
  assumes "valid_group A" "valid_group B" "length (hd A) = length (hd B)" "2 \<le> length A"
    "- 1 \<le> bins" "\<forall>g. is_permutation (fst (draw g (length A + length B))) (length A + length B)"
  shows "\<exists>obs. test_statistic bins A B = Inr obs
    \<and> jensen_shannon_divergence_and_pvalue_traced draw g A B num bins =
        (if num + 1 = 0 then Inl ZeroDivisionError
         else Inr ((obs, real_of_int (int (exceed_count bins (A @ B) (length A) obs
                      (draws draw g (length A + length B) (nat num))) + 1) / real_of_int (num + 1)),
                   final_state draw g (length A + length B) (nat num),
                   map (split_pool (A @ B) (length A)) (draws draw g (length A + length B) (nat num))))"
proof -
  from test_statistic_ok [OF assms(1-5)] obtain obs where obs: "test_statistic bins A B = Inr obs"
    by blast
  then obtain p0 p1 where p: "calculate_cosine_similarities A None = Inr p0"
      "calculate_cosine_similarities A (Some B) = Inr p1" "calculate_jsd bins p0 p1 = Inr obs"
    by (auto simp add: test_statistic_def bind_err_def split: sum.splits)
  have all: "\<forall>p \<in> set (draws draw g (length (A @ B)) (nat num)).
          is_permutation p (length (A @ B)) \<and> (\<exists>t. permuted_statistic bins (A @ B) (length A) p = Inr t)"
  proof
    fix p assume "p \<in> set (draws draw g (length (A @ B)) (nat num))"
    then have "p \<in> set (draws draw g (length A + length B) (nat num))" by simp
    with draws_permutations [of draw "length A + length B", OF assms(6)]
    have perm: "is_permutation p (length A + length B)" by blast
    from permuted_statistic_ok [OF assms(1-5) perm] perm
    show "is_permutation p (length (A @ B)) \<and> (\<exists>t. permuted_statistic bins (A @ B) (length A) p = Inr t)"
      by simp
  qed
  have k: "length A \<le> length (A @ B)" by simp
  from perm_loop_traced_eq [OF all k, of obs 0 "[]"]
  have loop: "perm_loop_traced draw bins (A @ B) (length A) obs (nat num) g 0 [] =
    Inr (int (exceed_count bins (A @ B) (length A) obs (draws draw g (length A + length B) (nat num))),
         final_state draw g (length A + length B) (nat num),
         map (split_pool (A @ B) (length A)) (draws draw g (length A + length B) (nat num)))"
    by simp
  have "jensen_shannon_divergence_and_pvalue_traced draw g A B num bins =
        (if num + 1 = 0 then Inl ZeroDivisionError
         else Inr ((obs, real_of_int (int (exceed_count bins (A @ B) (length A) obs
                      (draws draw g (length A + length B) (nat num))) + 1) / real_of_int (num + 1)),
                   final_state draw g (length A + length B) (nat num),
                   map (split_pool (A @ B) (length A)) (draws draw g (length A + length B) (nat num))))"
    by (simp add: jensen_shannon_divergence_and_pvalue_traced_def p vstack_valid [OF assms(1-3)] loop)
  with obs show ?thesis by blast
qed

text \<open>
  Claim C1. For embedding groups \<open>A\<close> and \<open>B\<close> of equal dimension, \<open>A\<close> of size at least 2
  and \<open>B\<close> not empty (so in particular for groups of size at least 2), a bin count of at
  least \<open>-1\<close> and a random source that returns permutations of the pooled indices, the
  function returns what its description says. The observed statistic is the histogram
  divergence between the intra-\<open>A\<close> similarities and the \<open>A\<close>-to-\<open>B\<close> similarities. The
  p-value is \<open>(count + 1) / (num_permutations + 1)\<close> where \<open>count\<close> is the number of draws,
  among the \<open>num_permutations\<close> successive draws of the random source, whose permuted
  statistic is at least the observed one; the permuted statistic of a draw rearranges the
  pooled vectors \<open>A @ B\<close> by the drawn permutation, takes the first \<open>|A|\<close> as one group and
  the rest as the other, and computes the statistic of these two groups the same way. The
  random source is left in the state reached after exactly that many draws. When the
  number of permutations is \<open>-1\<close> the final division raises \<^verbatim>\<open>ZeroDivisionError\<close>.
\<close>

theorem permutation_test_statistic_and_count:
  assumes "valid_group A" "valid_group B" "length (hd A) = length (hd B)" "2 \<le> length A"
    and "- 1 \<le> bins"
    and "\<forall>g. is_permutation (fst (draw g (length A + length B))) (length A + length B)"
  shows "\<exists>obs. calculate_jsd bins (intra_similarities A) (inter_similarities A B) = Inr obs
    \<and> test_statistic bins A B = Inr obs
    \<and> jensen_shannon_divergence_and_pvalue draw g A B num_permutations bins =
        (if num_permutations = - 1 then Inl ZeroDivisionError
         else Inr ((obs,
                    (real (exceed_count bins (A @ B) (length A) obs
                             (draws draw g (length A + length B) (nat num_permutations))) + 1)
                    / (real_of_int num_permutations + 1)),
                   final_state draw g (length A + length B) (nat num_permutations)))"
proof -
  from permutation_test_result [where draw = draw and g = g and n = "nat num_permutations", OF assms]
  obtain obs where obs: "test_statistic bins A B = Inr obs"
    and loop: "perm_loop draw bins (A @ B) (length A) obs (nat num_permutations) g 0
        = Inr (int (exceed_count bins (A @ B) (length A) obs
                      (draws draw g (length A + length B) (nat num_permutations))),
               final_state draw g (length A + length B) (nat num_permutations))"
    by blast
  have cl: "calculate_jsd bins (intra_similarities A) (inter_similarities A B) = Inr obs"
    using obs by (simp only: test_statistic_closed [OF assms(1-3)])
  have z: "(num_permutations + 1 = 0) = (num_permutations = - 1)" by arith
  have res: "jensen_shannon_divergence_and_pvalue draw g A B num_permutations bins =
        (if num_permutations = - 1 then Inl ZeroDivisionError
         else Inr ((obs,
                    (real (exceed_count bins (A @ B) (length A) obs
                             (draws draw g (length A + length B) (nat num_permutations))) + 1)
                    / (real_of_int num_permutations + 1)),
                   final_state draw g (length A + length B) (nat num_permutations)))"
    by (simp add: jsdp_unfold [OF obs vstack_valid [OF assms(1-3)] loop] z add.commute)
  show ?thesis
    by (rule exI [of _ obs]) (intro conjI cl obs res)
qed

text \<open>
  Two orthogonal vectors against one, 30 bins, 3 permutations, the random source
  returning the reversed index range.
\<close>

theorem permutation_test_statistic_and_count_witness:
  "\<exists>obs. calculate_jsd 30 (intra_similarities [[1, 0], [0, 1]])
             (inter_similarities [[1, 0], [0, 1]] [[1, 1]]) = Inr obs
    \<and> test_statistic 30 [[1, 0], [0, 1]] [[1, 1]] = Inr obs
    \<and> jensen_shannon_divergence_and_pvalue (\<lambda>g m. (rev [0..<m], g)) () [[1, 0], [0, 1]] [[1, 1]] 3 30
        = Inr ((obs, (real (exceed_count 30 [[1, 0], [0, 1], [1, 1]] 2 obs
                              (draws (\<lambda>g m. (rev [0..<m], g)) () 3 3)) + 1) / 4), ())"
proof -
  have a: "valid_group [[1, 0], [0, 1 :: real]]" by (simp add: valid_group_def)
  have b: "valid_group [[1, 1 :: real]]" by (simp add: valid_group_def)
  have c: "length (hd [[1, 0], [0, 1 :: real]]) = length (hd [[1, 1 :: real]])" by simp
  have e: "2 \<le> length [[1, 0], [0, 1 :: real]]" by simp
  have i: "- 1 \<le> (30 :: int)" by simp
  have d: "\<forall>g :: unit. is_permutation (fst ((\<lambda>g m. (rev [0..<m], g)) g
             (length [[1, 0], [0, 1 :: real]] + length [[1, 1 :: real]])))
             (length [[1, 0], [0, 1 :: real]] + length [[1, 1 :: real]])"
    by (simp only: fst_conv is_permutation_rev) simp
  have l: "length [[1, 0], [0, 1 :: real]] = 2" "length [[1, 1 :: real]] = 1"
    "(2 :: nat) + 1 = 3" "nat 3 = 3"
    "[[1, 0], [0, 1]] @ [[1, 1 :: real]] = [[1, 0], [0, 1], [1, 1]]"
    by simp_all
  have f: "final_state (\<lambda>g m. (rev [0..<m], g)) () m n = ()" for m n by simp
  have z: "((3 :: int) = - 1) = False" by simp
  have q: "real_of_int 3 + 1 = 4" by simp
  from permutation_test_statistic_and_count [where draw = "\<lambda>g m. (rev [0..<m], g)" and g = "()"
      and bins = 30 and num_permutations = 3, OF a b c e i d]
  show ?thesis by (simp only: l f z q if_False)
qed

text \<open>
  Claim C9. Whenever the loop runs (the observed statistic has been computed, which takes
  well-formed groups of equal dimension, at least two vectors in the first, and a bin
  count of at least \<open>-1\<close>), the random source returns permutations of the pooled indices
  and the number of permutations is not \<open>-1\<close> (where the function raises after the loop),
  the run with the ghost variable returns the result of the function together with the
  pairs of synthetic groups built by the loop, one pair per iteration. Each pair is the
  pooled array rearranged by the permutation drawn in that iteration and cut after \<open>|A|\<close>
  rows: the first group has \<open>|A|\<close> vectors, the second \<open>|B|\<close>, and together they are a
  rearrangement of the multiset of the input vectors.
\<close>

theorem synthetic_groups_partition:
  assumes "valid_group A" "valid_group B" "length (hd A) = length (hd B)" "2 \<le> length A"
    and "- 1 \<le> bins"
    and "\<forall>g. is_permutation (fst (draw g (length A + length B))) (length A + length B)"
    and "num_permutations \<noteq> - 1"
  shows "\<exists>result g' groups.
      jensen_shannon_divergence_and_pvalue_traced draw g A B num_permutations bins
        = Inr (result, g', groups)
    \<and> jensen_shannon_divergence_and_pvalue draw g A B num_permutations bins = Inr (result, g')
    \<and> length groups = nat num_permutations
    \<and> groups = map (split_pool (A @ B) (length A))
                  (draws draw g (length A + length B) (nat num_permutations))
    \<and> list_all (\<lambda>(perm_group1, perm_group2).
          length perm_group1 = length A \<and> length perm_group2 = length B
          \<and> mset (perm_group1 @ perm_group2) = mset A + mset B) groups"
proof -
  let ?ds = "draws draw g (length A + length B) (nat num_permutations)"
  let ?groups = "map (split_pool (A @ B) (length A)) ?ds"
  have nz: "num_permutations + 1 \<noteq> 0" using assms(7) by arith
  from traced_result [where draw = draw and g = g and num = num_permutations, OF assms(1-6)] nz
  obtain result where tr: "jensen_shannon_divergence_and_pvalue_traced draw g A B num_permutations bins
      = Inr (result, final_state draw g (length A + length B) (nat num_permutations), ?groups)"
    by auto
  have "map_sum id (\<lambda>(r, g', groups). (r, g'))
          (jensen_shannon_divergence_and_pvalue_traced draw g A B num_permutations bins)
        = jensen_shannon_divergence_and_pvalue draw g A B num_permutations bins"
    by (rule traced_erase)
  then have er: "jensen_shannon_divergence_and_pvalue draw g A B num_permutations bins
      = Inr (result, final_state draw g (length A + length B) (nat num_permutations))"
    by (simp add: tr)
  have len: "length ?groups = nat num_permutations" by (simp add: length_draws)
  have part: "list_all (\<lambda>(perm_group1, perm_group2).
          length perm_group1 = length A \<and> length perm_group2 = length B
          \<and> mset (perm_group1 @ perm_group2) = mset A + mset B) ?groups"
    unfolding list_all_iff
  proof
    fix x assume "x \<in> set ?groups"
    then obtain p where p: "p \<in> set ?ds" and x: "x = split_pool (A @ B) (length A) p" by auto
    from draws_permutations [of draw "length A + length B", OF assms(6)] p
    have perm: "is_permutation p (length A + length B)" by blast
    from split_pool_partition [OF perm]
    show "case x of (perm_group1, perm_group2) \<Rightarrow>
          length perm_group1 = length A \<and> length perm_group2 = length B
          \<and> mset (perm_group1 @ perm_group2) = mset A + mset B"
      by (simp add: x split_beta)
  qed
  show ?thesis
    by (rule exI [of _ result],
        rule exI [of _ "final_state draw g (length A + length B) (nat num_permutations)"],
        rule exI [of _ ?groups])
       (intro conjI tr er len refl part)
qed

text \<open>
  Two vectors pooled with one, two iterations, the random source returning the reversed
  index range: each iteration builds the first group from the pooled rows 2 and 1 and the
  second from row 0.
\<close>

theorem synthetic_groups_partition_witness:
  "\<exists>result g'.
      jensen_shannon_divergence_and_pvalue_traced (\<lambda>g m. (rev [0..<m], g)) ()
          [[1, 0], [0, 1]] [[1, 1]] 2 30
        = Inr (result, g', [([[1, 1], [0, 1]], [[1, 0]]), ([[1, 1], [0, 1]], [[1, 0]])])
    \<and> jensen_shannon_divergence_and_pvalue (\<lambda>g m. (rev [0..<m], g)) ()
          [[1, 0], [0, 1]] [[1, 1]] 2 30 = Inr (result, g')"
proof -
  have a: "valid_group [[1, 0], [0, 1 :: real]]" by (simp add: valid_group_def)
  have b: "valid_group [[1, 1 :: real]]" by (simp add: valid_group_def)
  have c: "length (hd [[1, 0], [0, 1 :: real]]) = length (hd [[1, 1 :: real]])" by simp
  have e: "2 \<le> length [[1, 0], [0, 1 :: real]]" by simp
  have i: "- 1 \<le> (30 :: int)" by simp
  have d: "\<forall>g :: unit. is_permutation (fst ((\<lambda>g m. (rev [0..<m], g)) g
             (length [[1, 0], [0, 1 :: real]] + length [[1, 1 :: real]])))
             (length [[1, 0], [0, 1 :: real]] + length [[1, 1 :: real]])"
    by (simp only: fst_conv is_permutation_rev) simp
  have n: "(2 :: int) \<noteq> - 1" by simp
  have g: "map (split_pool ([[1, 0], [0, 1]] @ [[1, 1 :: real]]) (length [[1, 0], [0, 1 :: real]]))
             (draws (\<lambda>g m. (rev [0..<m], g)) () (length [[1, 0], [0, 1 :: real]] + length [[1, 1 :: real]]) (nat 2))
      = [([[1, 1], [0, 1]], [[1, 0]]), ([[1, 1], [0, 1]], [[1, 0]])]"
    by (simp add: split_pool_def numeral_2_eq_2 upt_conv_Cons)
  from synthetic_groups_partition [where draw = "\<lambda>g m. (rev [0..<m], g)" and g = "()"
      and bins = 30 and num_permutations = 2, OF a b c e i d n]
  show ?thesis unfolding g by blast
qed

text \<open>
  Claim C2. For valid embedding groups (as in C1) and every number of permutations that
  is at least 0, the function returns, and the p-value it returns is
  \<open>(count + 1) / (num_permutations + 1)\<close> where \<open>count\<close> is the number of permuted
  statistics that are at least the observed statistic; the p-value is greater than 0 and
  at most 1.
\<close>

theorem p_value_formula_and_range:
  assumes "valid_group A" "valid_group B" "length (hd A) = length (hd B)" "2 \<le> length A"
    and "- 1 \<le> bins"
    and "\<forall>g. is_permutation (fst (draw g (length A + length B))) (length A + length B)"
    and "0 \<le> num_permutations"
  shows "\<exists>obs p_value g'.
      jensen_shannon_divergence_and_pvalue draw g A B num_permutations bins
        = Inr ((obs, p_value), g')
    \<and> test_statistic bins A B = Inr obs
    \<and> p_value = (real (exceed_count bins (A @ B) (length A) obs
                      (draws draw g (length A + length B) (nat num_permutations))) + 1)
                / (real_of_int num_permutations + 1)
    \<and> 0 < p_value \<and> p_value \<le> 1"
proof -
  let ?n = "nat num_permutations"
  from permutation_test_result [where draw = draw and g = g and n = ?n, OF assms(1-6)]
  obtain obs where obs: "test_statistic bins A B = Inr obs"
    and loop: "perm_loop draw bins (A @ B) (length A) obs ?n g 0
        = Inr (int (exceed_count bins (A @ B) (length A) obs (draws draw g (length A + length B) ?n)),
               final_state draw g (length A + length B) ?n)"
    by blast
  define c where "c = exceed_count bins (A @ B) (length A) obs (draws draw g (length A + length B) ?n)"
  define p where "p = (real c + 1) / (real_of_int num_permutations + 1)"
  have "c \<le> length (draws draw g (length A + length B) ?n)"
    unfolding c_def by (rule exceed_count_le)
  then have "c \<le> ?n" by (simp only: length_draws)
  then have cn: "real c \<le> real_of_int num_permutations" using assms(7) by linarith
  have den: "0 < real_of_int num_permutations + 1" using assms(7) by simp
  have pos: "0 < p" unfolding p_def using den by (intro divide_pos_pos) simp_all
  have le: "p \<le> 1" unfolding p_def using den cn by (simp add: divide_le_eq_1_pos)
  have nz: "num_permutations + 1 \<noteq> 0" using assms(7) by simp
  have res: "jensen_shannon_divergence_and_pvalue draw g A B num_permutations bins
        = Inr ((obs, p), final_state draw g (length A + length B) ?n)"
    using nz by (simp add: jsdp_unfold [OF obs vstack_valid [OF assms(1-3)] loop] p_def c_def add.commute)
  have p: "p = (real (exceed_count bins (A @ B) (length A) obs
                      (draws draw g (length A + length B) (nat num_permutations))) + 1)
                / (real_of_int num_permutations + 1)"
    by (simp only: p_def c_def)
  show ?thesis
    by (rule exI [of _ obs], rule exI [of _ p],
        rule exI [of _ "final_state draw g (length A + length B) ?n"])
       (intro conjI res obs p pos le)
qed

text \<open>The same groups and random source as before, 30 bins, 3 permutations.\<close>

theorem p_value_formula_and_range_witness:
  "\<exists>obs p_value g'.
      jensen_shannon_divergence_and_pvalue (\<lambda>g m. (rev [0..<m], g)) () [[1, 0], [0, 1]] [[1, 1]] 3 30
        = Inr ((obs, p_value), g')
    \<and> test_statistic 30 [[1, 0], [0, 1]] [[1, 1]] = Inr obs
    \<and> p_value = (real (exceed_count 30 [[1, 0], [0, 1], [1, 1]] 2 obs
                      (draws (\<lambda>g m. (rev [0..<m], g)) () 3 3)) + 1) / 4
    \<and> 0 < p_value \<and> p_value \<le> 1"
proof -
  have a: "valid_group [[1, 0], [0, 1 :: real]]" by (simp add: valid_group_def)
  have b: "valid_group [[1, 1 :: real]]" by (simp add: valid_group_def)
  have c: "length (hd [[1, 0], [0, 1 :: real]]) = length (hd [[1, 1 :: real]])" by simp
  have e: "2 \<le> length [[1, 0], [0, 1 :: real]]" by simp
  have i: "- 1 \<le> (30 :: int)" by simp
  have d: "\<forall>g :: unit. is_permutation (fst ((\<lambda>g m. (rev [0..<m], g)) g
             (length [[1, 0], [0, 1 :: real]] + length [[1, 1 :: real]])))
             (length [[1, 0], [0, 1 :: real]] + length [[1, 1 :: real]])"
    by (simp only: fst_conv is_permutation_rev) simp
  have l: "length [[1, 0], [0, 1 :: real]] = 2" "length [[1, 1 :: real]] = 1"
    "(2 :: nat) + 1 = 3" "nat 3 = 3"
    "[[1, 0], [0, 1]] @ [[1, 1 :: real]] = [[1, 0], [0, 1], [1, 1]]"
    by simp_all
  have n: "(0 :: int) \<le> 3" by simp
  have q: "real_of_int 3 + 1 = 4" by simp
  from p_value_formula_and_range [where draw = "\<lambda>g m. (rev [0..<m], g)" and g = "()"
      and bins = 30 and num_permutations = 3, OF a b c e i d n]
  show ?thesis by (simp only: l q)
qed

text \<open>
  Claim C8. The result of the permutation test depends on the random source only through
  the permutations drawn in the loop: two runs on the same embedding groups whose random
  sources yield the same sequence of permutations have the same outcome, the same
  (observed statistic, p-value) pair or the same error. In particular two runs that start
  from the same state of the same random source return identical pairs.
\<close>

theorem permutation_test_deterministic:
  assumes "draws draw g (length embeddings1 + length embeddings2) (nat num_permutations)
         = draws draw' g' (length embeddings1 + length embeddings2) (nat num_permutations)"
  shows "map_sum id fst (jensen_shannon_divergence_and_pvalue draw g embeddings1 embeddings2 num_permutations bins)
       = map_sum id fst (jensen_shannon_divergence_and_pvalue draw' g' embeddings1 embeddings2 num_permutations bins)"
proof (cases "calculate_cosine_similarities embeddings1 None")
  case (Inl e)
  then show ?thesis by (simp add: jensen_shannon_divergence_and_pvalue_def)
next
  case p0: (Inr p0)
  show ?thesis
  proof (cases "calculate_cosine_similarities embeddings1 (Some embeddings2)")
    case (Inl e)
    then show ?thesis by (simp add: jensen_shannon_divergence_and_pvalue_def p0)
  next
    case p1: (Inr p1)
    show ?thesis
    proof (cases "calculate_jsd bins p0 p1")
      case (Inl e)
      then show ?thesis by (simp add: jensen_shannon_divergence_and_pvalue_def p0 p1)
    next
      case obs: (Inr obs)
      show ?thesis
      proof (cases "vstack embeddings1 embeddings2")
        case (Inl e)
        then show ?thesis by (simp add: jensen_shannon_divergence_and_pvalue_def p0 p1 obs)
      next
        case (Inr Z)
        then have Z: "vstack embeddings1 embeddings2 = Inr (embeddings1 @ embeddings2)"
          using vstack_Inr by blast
        show ?thesis
          unfolding jensen_shannon_divergence_and_pvalue_def
          by (simp only: p0 p1 obs Z bind_err_simps jsdp_deterministic [OF assms])
      qed
    qed
  qed
qed

text \<open>
  A stateless source and a source with a Boolean state that both return the reversed
  index range draw the same permutations.
\<close>

theorem permutation_test_deterministic_witness:
  "map_sum id fst (jensen_shannon_divergence_and_pvalue (\<lambda>g m. (rev [0..<m], g)) ()
      [[1, 0], [0, 1]] [[1, 1]] 2 30)
   = map_sum id fst (jensen_shannon_divergence_and_pvalue (\<lambda>g m. (rev [0..<m], \<not> g)) True
      [[1, 0], [0, 1]] [[1, 1]] 2 30)"
proof -
  have "draws (\<lambda>g m. (rev [0..<m], g)) () (length [[1, 0], [0, 1 :: real]] + length [[1, 1 :: real]]) (nat 2)
      = draws (\<lambda>g m. (rev [0..<m], \<not> g)) True (length [[1, 0], [0, 1 :: real]] + length [[1, 1 :: real]]) (nat 2)"
    by (simp add: numeral_2_eq_2)
  from permutation_test_deterministic [OF this, of 30] show ?thesis .
qed

lemma jsdp_returns:
  assumes "valid_group A" "valid_group B" "length (hd A) = length (hd B)" "2 \<le> length A"
    "- 1 \<le> bins" "\<forall>g. is_permutation (fst (draw g (length A + length B))) (length A + length B)"
    "num \<noteq> - 1"
  shows "\<exists>result g'. jensen_shannon_divergence_and_pvalue draw g A B num bins = Inr (result, g')"
proof -
  from permutation_test_result [where draw = draw and g = g and n = "nat num", OF assms(1-6)]
  obtain obs where obs: "test_statistic bins A B = Inr obs"
    and loop: "perm_loop draw bins (A @ B) (length A) obs (nat num) g 0
        = Inr (int (exceed_count bins (A @ B) (length A) obs (draws draw g (length A + length B) (nat num))),
               final_state draw g (length A + length B) (nat num))"
    by blast
  have nz: "num + 1 \<noteq> 0" using assms(7) by arith
  show ?thesis
    using nz by (simp add: jsdp_unfold [OF obs vstack_valid [OF assms(1-3)] loop])
qed

section \<open>Properties of the permutation tester over a store\<close>

lemma perm_loop_h_erase:
  assumes "c < length h"
  shows "map_sum id (\<lambda>(cnt, g', h'). (cnt, g')) (perm_loop_h draw bins h c k obs n g cnt)
       = perm_loop draw bins (h ! c) k obs n g cnt"
  using assms
proof (induction n arbitrary: h g cnt)
  case 0
  show ?case by simp
next
  case (Suc n)
  obtain p g' where d: "draw g (length (h ! c)) = (p, g')" by (cases "draw g (length (h ! c))")
  show ?case
  proof (cases "fancy_index (h ! c) (take k p)")
    case (Inl e)
    then show ?thesis by (simp add: d fancy_index_h_def)
  next
    case g1: (Inr G1)
    show ?thesis
    proof (cases "fancy_index (h ! c) (drop k p)")
      case (Inl e)
      then show ?thesis using Suc.prems by (simp add: d fancy_index_h_def g1 alloc_def nth_append)
    next
      case g2: (Inr G2)
      let ?h2 = "(h @ [G1]) @ [G2]"
      have c2: "c < length ?h2" using Suc.prems by simp
      have n: "?h2 ! c = h ! c" "?h2 ! length h = G1" "?h2 ! Suc (length h) = G2"
        "(h @ [G1]) ! c = h ! c"
        using Suc.prems by (simp_all add: nth_append)
      have body: "perm_loop_h draw bins h c k obs (Suc n) g cnt =
          bind_err (calculate_cosine_similarities G1 None) (\<lambda>p0_perm.
          bind_err (calculate_cosine_similarities G1 (Some G2)) (\<lambda>p1_perm.
          bind_err (calculate_jsd bins p0_perm p1_perm) (\<lambda>perm_jsd.
          perm_loop_h draw bins ?h2 c k obs n g' (if fge perm_jsd obs then cnt + 1 else cnt))))"
        by (simp add: d fancy_index_h_def g1 g2 alloc_def n del: append_assoc)
      have body': "perm_loop draw bins (h ! c) k obs (Suc n) g cnt =
          bind_err (calculate_cosine_similarities G1 None) (\<lambda>p0_perm.
          bind_err (calculate_cosine_similarities G1 (Some G2)) (\<lambda>p1_perm.
          bind_err (calculate_jsd bins p0_perm p1_perm) (\<lambda>perm_jsd.
          perm_loop draw bins (h ! c) k obs n g' (if fge perm_jsd obs then cnt + 1 else cnt))))"
        by (simp add: d g1 g2)
      show ?thesis
        unfolding body body'
        using Suc.IH [OF c2, unfolded n(1) id_def]
        by (simp add: bind_err_def split: sum.splits)
    qed
  qed
qed

lemma perm_loop_h_frame:
  "perm_loop_h draw bins h c k obs n g cnt = Inr (cnt', g', h') \<Longrightarrow> take (length h) h' = h"
proof (induction n arbitrary: h g cnt)
  case 0
  then show ?case by simp
next
  case (Suc n)
  obtain p g1 where d: "draw g (length (h ! c)) = (p, g1)" by (cases "draw g (length (h ! c))")
  from Suc.prems obtain G1 G2 t where
    run: "perm_loop_h draw bins ((h @ [G1]) @ [G2]) c k obs n g1 t = Inr (cnt', g', h')"
    by (auto simp add: d fancy_index_h_def alloc_def bind_err_def split: sum.splits if_splits)
  from Suc.IH [OF run] have "take (length ((h @ [G1]) @ [G2])) h' = (h @ [G1]) @ [G2]" .
  then have "take (length h) (take (length ((h @ [G1]) @ [G2])) h') = take (length h) ((h @ [G1]) @ [G2])"
    by (rule arg_cong)
  then show ?case by (simp add: min_def)
qed

lemma jsdp_h_erase:
  assumes "e1 < length h" "e2 < length h"
  shows "map_sum id (\<lambda>(result, g', h'). (result, g'))
           (jensen_shannon_divergence_and_pvalue_h draw g h e1 e2 num bins)
       = jensen_shannon_divergence_and_pvalue draw g (h ! e1) (h ! e2) num bins"
proof (cases "calculate_cosine_similarities (h ! e1) None")
  case (Inl e)
  then show ?thesis
    by (simp add: jensen_shannon_divergence_and_pvalue_h_def jensen_shannon_divergence_and_pvalue_def)
next
  case p0: (Inr p0)
  show ?thesis
  proof (cases "calculate_cosine_similarities (h ! e1) (Some (h ! e2))")
    case (Inl e)
    then show ?thesis
      by (simp add: jensen_shannon_divergence_and_pvalue_h_def jensen_shannon_divergence_and_pvalue_def p0)
  next
    case p1: (Inr p1)
    show ?thesis
    proof (cases "calculate_jsd bins p0 p1")
      case (Inl e)
      then show ?thesis
        by (simp add: jensen_shannon_divergence_and_pvalue_h_def
            jensen_shannon_divergence_and_pvalue_def p0 p1)
    next
      case obs: (Inr obs)
      show ?thesis
      proof (cases "vstack (h ! e1) (h ! e2)")
        case (Inl e)
        then show ?thesis
          by (simp add: jensen_shannon_divergence_and_pvalue_h_def
              jensen_shannon_divergence_and_pvalue_def p0 p1 obs vstack_h_def)
      next
        case Z: (Inr Z)
        let ?h1 = "h @ [Z]"
        have n: "?h1 ! length h = Z" "?h1 ! e1 = h ! e1" using assms(1) by (simp_all add: nth_append)
        have c: "length h < length ?h1" by simp
        from perm_loop_h_erase [OF c, of draw bins "length (h ! e1)" obs "nat num" g 0]
        have er: "map_sum id (\<lambda>(cnt, g', h'). (cnt, g'))
              (perm_loop_h draw bins ?h1 (length h) (length (h ! e1)) obs (nat num) g 0)
            = perm_loop draw bins Z (length (h ! e1)) obs (nat num) g 0"
          by (simp only: n)
        have l: "jensen_shannon_divergence_and_pvalue_h draw g h e1 e2 num bins =
            bind_err (perm_loop_h draw bins ?h1 (length h) (length (h ! e1)) obs (nat num) g 0)
              (\<lambda>(cnt, g', h').
                 if num + 1 = 0 then Inl ZeroDivisionError
                 else Inr ((obs, real_of_int (cnt + 1) / real_of_int (num + 1)), g', h'))"
          by (simp add: jensen_shannon_divergence_and_pvalue_h_def p0 p1 obs vstack_h_def Z alloc_def n)
        have r: "jensen_shannon_divergence_and_pvalue draw g (h ! e1) (h ! e2) num bins =
            bind_err (perm_loop draw bins Z (length (h ! e1)) obs (nat num) g 0)
              (\<lambda>(cnt, g').
                 if num + 1 = 0 then Inl ZeroDivisionError
                 else Inr ((obs, real_of_int (cnt + 1) / real_of_int (num + 1)), g'))"
          by (simp add: jensen_shannon_divergence_and_pvalue_def p0 p1 obs Z)
        show ?thesis
          unfolding l r using er [symmetric]
          by (cases "perm_loop_h draw bins ?h1 (length h) (length (h ! e1)) obs (nat num) g 0")
             (auto simp add: bind_err_def)
      qed
    qed
  qed
qed

lemma jsdp_h_frame:
  assumes "jensen_shannon_divergence_and_pvalue_h draw g h e1 e2 num bins = Inr (result, g', h')"
  shows "take (length h) h' = h"
proof -
  from assms obtain Z obs cnt where
    run: "perm_loop_h draw bins (h @ [Z]) (length h) (length ((h @ [Z]) ! e1)) obs (nat num) g 0
            = Inr (cnt, g', h')"
    by (auto simp add: jensen_shannon_divergence_and_pvalue_h_def vstack_h_def alloc_def bind_err_def
        split: sum.splits if_splits)
  from perm_loop_h_frame [OF run] have "take (length (h @ [Z])) h' = h @ [Z]" .
  then have "take (length h) (take (length (h @ [Z])) h') = take (length h) (h @ [Z])"
    by (rule arg_cong)
  then show ?thesis by (simp add: min_def)
qed

lemma take_nth_eq: "take n xs = ys \<Longrightarrow> i < length ys \<Longrightarrow> xs ! i = ys ! i"
  by (metis length_take min_less_iff_conj nth_take)

text \<open>
  Claim C10. Let the two embedding groups be arrays of the store. The run over the store
  returns what the function returns on the contents of the two arrays, and when it returns,
  every array that was in the store before the call, the two groups among them, still has
  its contents: the call only adds arrays to the store.
\<close>

theorem inputs_unchanged:
  assumes "embeddings1 < length h" "embeddings2 < length h"
  shows "map_sum id (\<lambda>(result, g', h'). (result, g'))
           (jensen_shannon_divergence_and_pvalue_h draw g h embeddings1 embeddings2 num_permutations bins)
         = jensen_shannon_divergence_and_pvalue draw g (h ! embeddings1) (h ! embeddings2)
             num_permutations bins
    \<and> (\<forall>result g' h'.
          jensen_shannon_divergence_and_pvalue_h draw g h embeddings1 embeddings2 num_permutations bins
            = Inr (result, g', h')
          \<longrightarrow> take (length h) h' = h
              \<and> h' ! embeddings1 = h ! embeddings1 \<and> h' ! embeddings2 = h ! embeddings2)"
proof (intro conjI allI impI)
  show "map_sum id (\<lambda>(result, g', h'). (result, g'))
           (jensen_shannon_divergence_and_pvalue_h draw g h embeddings1 embeddings2 num_permutations bins)
         = jensen_shannon_divergence_and_pvalue draw g (h ! embeddings1) (h ! embeddings2)
             num_permutations bins"
    by (rule jsdp_h_erase [OF assms])
next
  fix result g' h'
  assume run: "jensen_shannon_divergence_and_pvalue_h draw g h embeddings1 embeddings2
                 num_permutations bins = Inr (result, g', h')"
  then show t: "take (length h) h' = h" by (rule jsdp_h_frame)
  from take_nth_eq [OF t assms(1)] show "h' ! embeddings1 = h ! embeddings1" .
  from take_nth_eq [OF t assms(2)] show "h' ! embeddings2 = h ! embeddings2" .
qed

text \<open>
  A store that holds two orthogonal vectors at address 0 and one vector at address 1; two
  permutations, 30 bins, the random source returning the reversed index range.
\<close>

theorem inputs_unchanged_witness:
  "\<exists>result g' h'.
      jensen_shannon_divergence_and_pvalue_h (\<lambda>g m. (rev [0..<m], g)) ()
          [[[1, 0], [0, 1]], [[1, 1]]] 0 1 2 30 = Inr (result, g', h')
    \<and> h' ! 0 = [[1, 0], [0, 1]] \<and> h' ! 1 = [[1, 1]]"
proof -
  let ?h = "[[[1, 0], [0, 1]], [[1, 1 :: real]]]"
  let ?d = "\<lambda>(g :: unit) m. (rev [0..<m], g)"
  have a: "valid_group (?h ! 0)" by (simp add: valid_group_def)
  have b: "valid_group (?h ! 1)" by (simp add: valid_group_def)
  have c: "length (hd (?h ! 0)) = length (hd (?h ! 1))" by simp
  have e: "2 \<le> length (?h ! 0)" by simp
  have i: "- 1 \<le> (30 :: int)" by simp
  have d: "\<forall>g :: unit. is_permutation (fst (?d g (length (?h ! 0) + length (?h ! 1))))
             (length (?h ! 0) + length (?h ! 1))"
    by (simp only: fst_conv is_permutation_rev split: prod.splits) simp
  have n: "(2 :: int) \<noteq> - 1" by simp
  from jsdp_returns [where draw = "?d" and g = "()", OF a b c e i d n]
  obtain result g' where r: "jensen_shannon_divergence_and_pvalue ?d () (?h ! 0) (?h ! 1) 2 30
      = Inr (result, g')" by blast
  have l: "0 < length ?h" "1 < length ?h" by simp_all
  note fr = inputs_unchanged [where draw = "?d" and g = "()" and bins = 30 and num_permutations = 2,
      OF l]
  from fr [THEN conjunct1] r
  obtain h' where run: "jensen_shannon_divergence_and_pvalue_h ?d () ?h 0 1 2 30 = Inr (result, g', h')"
    by (cases "jensen_shannon_divergence_and_pvalue_h ?d () ?h 0 1 2 30") auto
  from fr [THEN conjunct2, rule_format, OF run]
  have "h' ! 0 = ?h ! 0" "h' ! 1 = ?h ! 1" by simp_all
  then have "h' ! 0 = [[1, 0], [0, 1]]" "h' ! 1 = [[1, 1]]" by simp_all
  with run show ?thesis by blast
qed

section \<open>Properties of the command-line interface\<close>

text \<open>
  Claim C3. The command-line interface imports \<^verbatim>\<open>quantify_perturbations\<close> from the core
  module, which does not define it: the import raises \<^verbatim>\<open>ImportError\<close>.
\<close>

theorem quantify_import_fails:
  "interface_import = Inl ImportError"
  by (simp add: interface_import_def import_from_def core_module_names_def)

end
